theory Spec2Isabelle
  imports Main "HOL-Library.Word"
begin

unbundle bit_operations_syntax

section \<open>DNS cache services (services/cache/dns.c)\<close>

subsection \<open>Data\<close>

text \<open>
  A pointer with its length (\<open>qname\<close>, \<open>qnamelen\<close>) is a list of bytes; an array with its
  count (\<open>rrsets\<close>, \<open>rrset_count\<close>) is a list. Times and TTLs are \<open>uint32_t\<close>, so
  \<open>+\<close> and \<open>-\<close> on them wrap around. The read locks that dns.c takes and releases
  on cache entries are not modelled.
\<close>

type_synonym hashvalue_t = "32 word"
type_synonym dname = "8 word list"
type_synonym addr = nat

definition LDNS_RR_TYPE_A :: "16 word" where "LDNS_RR_TYPE_A = 1"
definition LDNS_RR_TYPE_NS :: "16 word" where "LDNS_RR_TYPE_NS = 2"
definition LDNS_RR_TYPE_CNAME :: "16 word" where "LDNS_RR_TYPE_CNAME = 5"
definition LDNS_RR_TYPE_AAAA :: "16 word" where "LDNS_RR_TYPE_AAAA = 28"
definition LDNS_RR_TYPE_DS :: "16 word" where "LDNS_RR_TYPE_DS = 43"
definition LDNS_RR_TYPE_NSEC :: "16 word" where "LDNS_RR_TYPE_NSEC = 47"
definition BIT_QR :: "16 word" where "BIT_QR = 0x8000"

record query_info =
  qname :: dname
  qtype :: "16 word"
  qclass :: "16 word"

text \<open>
  Modelled from the spec: \<open>enum rrset_trust\<close> (util/data/packed_rrset.h) is absent.
  The RRset cache compares trust levels; the model has five of them, ascending.
\<close>

datatype rrset_trust =
  rrset_trust_add_noAA | rrset_trust_add_AA | rrset_trust_auth | rrset_trust_ans_AA
  | rrset_trust_validated

text \<open>
  \<open>struct packed_rrset_data\<close>: \<open>rr_ttl\<close> has \<open>count + rrsig_count\<close> entries, the TTLs of
  the RRs first and those of the RRSIGs after them; \<open>rr_data\<close> likewise.
\<close>

record packed_rrset_data =
  d_ttl :: "32 word"
  d_count :: nat
  d_rrsig_count :: nat
  d_trust :: rrset_trust
  rr_ttl :: "32 word list"
  rr_data :: "8 word list list"

text \<open>
  \<open>struct ub_packed_rrset_key\<close> with the data its \<open>entry.data\<close> points to:
  \<open>entry.hash\<close>, \<open>rk\<close> (owner name, type, class, flags), \<open>id\<close>.
\<close>

record ub_packed_rrset_key =
  k_hash :: hashvalue_t
  k_dname :: dname
  k_type :: "16 word"
  k_class :: "16 word"
  k_flags :: "32 word"
  k_id :: nat
  k_data :: packed_rrset_data

record rrset_ref =
  ref_key :: addr
  ref_id :: nat

text \<open>
  \<open>struct reply_info\<close>. In a cached reply the \<open>rrsets\<close> are pointers into the RRset
  cache (\<open>'p = addr\<close>); in a \<open>dns_msg\<close> they are the region's own copies
  (\<open>'p = ub_packed_rrset_key\<close>). \<open>rrset_count\<close> is the length of \<open>rrsets\<close>.
\<close>

record 'p reply_info =
  rep_flags :: "16 word"
  rep_qdcount :: nat
  rep_ttl :: "32 word"
  an_numrrsets :: nat
  ns_numrrsets :: nat
  ar_numrrsets :: nat
  rrsets :: "'p list"
  ref :: "rrset_ref list"

record dns_msg =
  msg_qinfo :: query_info
  msg_rep :: "ub_packed_rrset_key reply_info"

subsection \<open>Region allocator\<close>

text \<open>
  Modelled from the spec: \<open>region_alloc\<close> and \<open>region_alloc_init\<close>
  (util/region-allocator.c) are absent. A region is the number of allocations it can
  still serve; an allocation from an exhausted region returns NULL. Every caller below
  returns at its first failed allocation.
\<close>

type_synonym region = nat

definition region_alloc :: "region \<Rightarrow> bool \<times> region" where
  "region_alloc r = (if r = 0 then (False, r) else (True, r - 1))"

subsection \<open>Slab hash (util/storage/slabhash.h)\<close>

record ('k, 'd) lruhash_entry =
  e_hash :: hashvalue_t
  e_key :: 'k
  e_data :: 'd

text \<open>
  One table (\<open>struct lruhash\<close>, declared in util/storage/lruhash.h, which is absent): its
  entries in LRU order, most recently used first, the memory in use, the memory allowed,
  and the user's size function.
\<close>

record ('k, 'd) lruhash =
  lru_list :: "('k, 'd) lruhash_entry list"
  space_used :: nat
  space_max :: nat
  sizefunc :: "('k, 'd) lruhash_entry \<Rightarrow> nat"

text \<open>\<open>struct slabhash\<close>; \<open>size\<close> is the length of \<open>array\<close>.\<close>

record ('k, 'd) slabhash =
  sl_mask :: "32 word"
  sl_shift :: nat
  sl_array :: "('k, 'd) lruhash list"

text \<open>
  The index of the table a hash selects: the mask uses the high bits of the hash, and
  shifting right by \<open>shift\<close> bits gives the index into the array.
\<close>

definition slab_idx :: "('k, 'd) slabhash \<Rightarrow> hashvalue_t \<Rightarrow> nat" where
  "slab_idx sl h = unat (drop_bit (sl_shift sl) (h AND sl_mask sl))"

text \<open>
  Modelled from the spec: the compare function of the table (\<open>compfunc\<close>, given to
  \<open>slabhash_create\<close>) is absent. An entry is identified by its hash and key; keys are
  compared with \<open>=\<close>.
\<close>

definition entry_matches :: "hashvalue_t \<Rightarrow> 'k \<Rightarrow> ('k, 'd) lruhash_entry \<Rightarrow> bool" where
  "entry_matches h k e = (e_hash e = h \<and> e_key e = k)"

text \<open>
  Modelled from the spec: \<open>lruhash_lookup\<close> (util/storage/lruhash.c) is absent.
  \<open>lookup(hash, key)\<close> returns the entry or none; the LRU is touched on hit.
\<close>

definition lruhash_lookup ::
  "('k, 'd) lruhash \<Rightarrow> hashvalue_t \<Rightarrow> 'k \<Rightarrow> ('k, 'd) lruhash_entry option \<times> ('k, 'd) lruhash" where
  "lruhash_lookup t h k =
     (case find (entry_matches h k) (lru_list t) of
        None \<Rightarrow> (None, t)
      | Some e \<Rightarrow> (Some e, t\<lparr>lru_list := e # remove1 e (lru_list t)\<rparr>))"

text \<open>
  Modelled from the spec: \<open>slabhash_lookup\<close> (util/storage/slabhash.c) is absent; the
  header says it uses \<open>lruhash_lookup\<close> on the table the hash selects. A table index
  outside the array does not occur for a table made by \<open>slabhash_create\<close>; the model
  reports a miss there.
\<close>

definition slabhash_lookup ::
  "('k, 'd) slabhash \<Rightarrow> hashvalue_t \<Rightarrow> 'k \<Rightarrow> ('k, 'd) lruhash_entry option \<times> ('k, 'd) slabhash" where
  "slabhash_lookup sl h k =
     (let i = slab_idx sl h in
      if i < length (sl_array sl) then
        (let (e, t) = lruhash_lookup (sl_array sl ! i) h k
         in (e, sl\<lparr>sl_array := (sl_array sl)[i := t]\<rparr>))
      else (None, sl))"

text \<open>
  Modelled from the spec: \<open>lruhash_remove\<close> (util/storage/lruhash.c) is absent.
  \<open>remove(hash, key)\<close>: delete if present.
\<close>

definition lruhash_remove ::
  "('k, 'd) lruhash \<Rightarrow> hashvalue_t \<Rightarrow> 'k \<Rightarrow> ('k, 'd) lruhash" where
  "lruhash_remove t h k =
     (case find (entry_matches h k) (lru_list t) of
        None \<Rightarrow> t
      | Some e \<Rightarrow> t\<lparr>lru_list := remove1 e (lru_list t),
                    space_used := space_used t - sizefunc t e\<rparr>)"

text \<open>
  Modelled from the spec: \<open>slabhash_remove\<close> (util/storage/slabhash.c) is absent; the
  header says it uses \<open>lruhash_remove\<close> and does nothing if the entry is not found.
\<close>

definition slabhash_remove ::
  "('k, 'd) slabhash \<Rightarrow> hashvalue_t \<Rightarrow> 'k \<Rightarrow> ('k, 'd) slabhash" where
  "slabhash_remove sl h k =
     (let i = slab_idx sl h in
      if i < length (sl_array sl) then
        sl\<lparr>sl_array := (sl_array sl)[i := lruhash_remove (sl_array sl ! i) h k]\<rparr>
      else sl)"

subsection \<open>The module environment\<close>

text \<open>
  The part of \<open>struct module_env\<close> that dns.c uses: the message cache, and the RRset
  cache. RRset keys are never returned to the system (they are recycled), so every
  address holds some key; \<open>rrset_lru\<close> lists the addresses of the keys that are in the
  RRset cache, most recently used first.
\<close>

record module_env =
  msg_cache :: "(query_info, addr reply_info) slabhash"
  rrset_heap :: "addr \<Rightarrow> ub_packed_rrset_key"
  rrset_lru :: "addr list"

subsection \<open>RRset cache (services/cache/rrset.c)\<close>

text \<open>
  Modelled from the spec: the expiry test of the RRset cache (services/cache/rrset.c) is
  absent. An RRset is expired at \<open>now\<close> by the test that \<open>tomsg\<close> applies to a
  reply, \<open>now > ttl\<close>.
\<close>

definition rrset_expired :: "32 word \<Rightarrow> ub_packed_rrset_key \<Rightarrow> bool" where
  "rrset_expired now k = (now > d_ttl (k_data k))"

text \<open>
  Modelled from the spec: \<open>rrset_array_lock\<close> is absent. On lookup, if any
  back-reference fails the version-id check or any referenced RRset is expired, the
  message is a miss.
\<close>

definition rrset_array_lock :: "(addr \<Rightarrow> ub_packed_rrset_key) \<Rightarrow> rrset_ref list \<Rightarrow> 32 word \<Rightarrow> bool" where
  "rrset_array_lock h refs now =
     list_all (\<lambda>r. ref_id r = k_id (h (ref_key r)) \<and> \<not> rrset_expired now (h (ref_key r))) refs"

text \<open>
  Modelled from the spec: the LRU touch of the RRset cache is absent. A key that is in
  the cache moves to the front of the LRU.
\<close>

definition lru_touch :: "addr \<Rightarrow> addr list \<Rightarrow> addr list" where
  "lru_touch a l = (if a \<in> set l then a # remove1 a l else l)"

text \<open>
  Modelled from the spec: \<open>rrset_array_unlock_touch\<close> is absent. The LRU is touched
  for every referenced RRset that is in the cache.
\<close>

definition rrset_array_unlock_touch :: "addr list \<Rightarrow> rrset_ref list \<Rightarrow> addr list" where
  "rrset_array_unlock_touch l refs = fold (\<lambda>r. lru_touch (ref_key r)) refs l"

subsection \<open>copy_rrset\<close>

text \<open>
  The loop \<open>for(i=0; i<d->count + d->rrsig_count; i++) d->rr_ttl[i] -= now\<close>.
  \<open>rr_ttl\<close> has \<open>count + rrsig_count\<close> entries; on a shorter list the model
  leaves the list as it is at the indices outside it.
\<close>

function copy_rrset_ttls :: "nat \<Rightarrow> nat \<Rightarrow> 32 word \<Rightarrow> 32 word list \<Rightarrow> 32 word list" where
  "copy_rrset_ttls i n now ts =
     (if i < n then copy_rrset_ttls (Suc i) n now (ts[i := ts ! i - now]) else ts)"
  by pat_completeness auto
termination
  by (relation "measure (\<lambda>(i, n, now, ts). n - i)") auto

declare copy_rrset_ttls.simps [simp del]

text \<open>
  Three allocations: the key, the owner name, the data. The copy keeps \<open>id\<close>,
  \<open>entry.hash\<close> and \<open>rk\<close>, and its TTLs are made relative to \<open>now\<close>.
\<close>

definition copy_rrset ::
  "ub_packed_rrset_key \<Rightarrow> region \<Rightarrow> 32 word \<Rightarrow> ub_packed_rrset_key option \<times> region" where
  "copy_rrset key region now =
     (let (ck_ok, r1) = region_alloc region in
      if \<not> ck_ok then (None, r1) else
      let (dname_ok, r2) = region_alloc r1 in
      if \<not> dname_ok then (None, r2) else
      let (d_ok, r3) = region_alloc r2 in
      if \<not> d_ok then (None, r3) else
      let d = k_data key;
          d1 = d\<lparr>rr_ttl := copy_rrset_ttls 0 (d_count d + d_rrsig_count d) now (rr_ttl d)\<rparr>;
          d2 = d1\<lparr>d_ttl := d_ttl d1 - now\<rparr>
      in (Some (key\<lparr>k_data := d2\<rparr>), r3))"

subsection \<open>tomsg and dns_cache_lookup\<close>

text \<open>The loop of \<open>tomsg\<close> that copies every RRset, stopping at the first failure.\<close>

fun tomsg_copy ::
  "(addr \<Rightarrow> ub_packed_rrset_key) \<Rightarrow> addr list \<Rightarrow> region \<Rightarrow> 32 word
   \<Rightarrow> ub_packed_rrset_key list option \<times> region" where
  "tomsg_copy h [] region now = (Some [], region)"
| "tomsg_copy h (a # as) region now =
     (case copy_rrset (h a) region now of
        (None, r1) \<Rightarrow> (None, r1)
      | (Some ck, r1) \<Rightarrow>
          (case tomsg_copy h as r1 now of
             (None, r2) \<Rightarrow> (None, r2)
           | (Some cs, r2) \<Rightarrow> (Some (ck # cs), r2)))"

text \<open>
  \<open>tomsg\<close>: NULL when \<open>now > r->ttl\<close>, when an allocation fails, when the RRsets cannot
  be locked, or when a copy fails. The reply header is copied as it is (\<open>memcpy\<close>); the
  \<open>ref\<close> array is not part of the copy.
\<close>

definition tomsg ::
  "module_env \<Rightarrow> query_info \<Rightarrow> addr reply_info \<Rightarrow> region \<Rightarrow> 32 word
   \<Rightarrow> dns_msg option \<times> region \<times> module_env" where
  "tomsg env e r region now =
     (if now > rep_ttl r then (None, region, env) else
      let (msg_ok, r1) = region_alloc region in
      if \<not> msg_ok then (None, r1, env) else
      let (qname_ok, r2) = region_alloc r1 in
      if \<not> qname_ok then (None, r2, env) else
      let (rep_ok, r3) = region_alloc r2 in
      if \<not> rep_ok then (None, r3, env) else
      let (rrsets_ok, r4) = region_alloc r3 in
      if \<not> rrsets_ok then (None, r4, env) else
      if \<not> rrset_array_lock (rrset_heap env) (ref r) now then (None, r4, env) else
      (case tomsg_copy (rrset_heap env) (rrsets r) r4 now of
         (None, r5) \<Rightarrow> (None, r5, env)
       | (Some cs, r5) \<Rightarrow>
           (Some \<lparr>msg_qinfo = e,
                  msg_rep = \<lparr>rep_flags = rep_flags r, rep_qdcount = rep_qdcount r,
                    rep_ttl = rep_ttl r,
                    an_numrrsets = an_numrrsets r, ns_numrrsets = ns_numrrsets r,
                    ar_numrrsets = ar_numrrsets r, rrsets = cs, ref = []\<rparr>\<rparr>,
            r5,
            env\<lparr>rrset_lru := rrset_array_unlock_touch (rrset_lru env) (ref r)\<rparr>)))"

text \<open>
  One attempt of \<open>dns_cache_lookup\<close>: \<open>slabhash_lookup\<close> for the key \<open>k\<close>, then
  \<open>tomsg\<close> on the entry found. The source writes this block twice.
\<close>

definition lookup_attempt ::
  "(query_info \<Rightarrow> hashvalue_t) \<Rightarrow> module_env \<Rightarrow> query_info \<Rightarrow> region \<Rightarrow> 32 word
   \<Rightarrow> dns_msg option \<times> region \<times> module_env" where
  "lookup_attempt query_info_hash env k region now =
     (let h = query_info_hash k;
          (e, mc) = slabhash_lookup (msg_cache env) h k;
          env1 = env\<lparr>msg_cache := mc\<rparr>
      in case e of
           None \<Rightarrow> (None, region, env1)
         | Some en \<Rightarrow> tomsg env1 (e_key en) (e_data en) region now)"

text \<open>
  \<open>dns_cache_lookup\<close>. \<open>query_info_hash\<close> (util/data/msgreply.c) is absent and is a
  parameter; \<open>now\<close> is the value of \<open>time(NULL)\<close>.
\<close>

definition dns_cache_lookup ::
  "(query_info \<Rightarrow> hashvalue_t) \<Rightarrow> module_env \<Rightarrow> dname \<Rightarrow> 16 word \<Rightarrow> 16 word \<Rightarrow> region
   \<Rightarrow> 32 word \<Rightarrow> dns_msg option \<times> region \<times> module_env" where
  "dns_cache_lookup query_info_hash env qn qt qc region now =
     (let k = \<lparr>qname = qn, qtype = qt, qclass = qc\<rparr> in
      case lookup_attempt query_info_hash env k region now of
        (Some msg, r1, env1) \<Rightarrow> (Some msg, r1, env1)
      | (None, r1, env1) \<Rightarrow>
          (let k2 = k\<lparr>qtype := LDNS_RR_TYPE_CNAME\<rparr> in
           case lookup_attempt query_info_hash env1 k2 r1 now of
             (Some msg, r2, env2) \<Rightarrow> (Some msg, r2, env2)
           | (None, r2, env2) \<Rightarrow> (None, r2, env2)))"

subsection \<open>Table invariant and the entries that count\<close>

text \<open>
  No two entries of a table have the same hash and key. A table made by
  \<open>slabhash_create\<close> has this property, and the operations on tables keep it.
\<close>

definition lruhash_distinct :: "('k, 'd) lruhash \<Rightarrow> bool" where
  "lruhash_distinct t = distinct (map (\<lambda>e. (e_hash e, e_key e)) (lru_list t))"

definition slabhash_distinct :: "('k, 'd) slabhash \<Rightarrow> bool" where
  "slabhash_distinct sl = list_all lruhash_distinct (sl_array sl)"

text \<open>
  The entry a lookup found, unless \<open>tomsg\<close> rejects it for its TTL.
\<close>

definition live :: "32 word \<Rightarrow> (query_info, addr reply_info) lruhash_entry option
    \<Rightarrow> (query_info, addr reply_info) lruhash_entry option" where
  "live now eo = (case eo of None \<Rightarrow> None
                  | Some en \<Rightarrow> if now > rep_ttl (e_data en) then None else Some en)"


section \<open>Storing a reply: slabhash_insert, the RRset cache update, dns_cache_store_msg\<close>

subsection \<open>slabhash_create and slabhash_insert\<close>

text \<open>
  Modelled from the spec: the number of bits that index \<open>n\<close> tables, \<open>n\<close> a
  power of two (part of \<open>slabhash_create\<close>, which is absent).
\<close>

fun slab_bits :: "nat \<Rightarrow> nat" where
  "slab_bits n = (if n \<le> 1 then 0 else Suc (slab_bits (n div 2)))"

declare slab_bits.simps [simp del]

text \<open>
  Modelled from the spec: \<open>slabhash_create\<close> (util/storage/slabhash.c) is absent.
  \<open>numtables\<close> independent tables, \<open>numtables\<close> a power of two; the top bits of the
  32-bit hash select the table; every table gets \<open>maxmem / numtables\<close> for itself. The
  start size, the compare and the delete functions are not part of the model: keys are
  compared with \<open>=\<close>, and deleted data is handed back to the caller.
\<close>

definition slabhash_create ::
  "nat \<Rightarrow> nat \<Rightarrow> (('k, 'd) lruhash_entry \<Rightarrow> nat) \<Rightarrow> ('k, 'd) slabhash" where
  "slabhash_create numtables maxmem szf =
     \<lparr>sl_mask = push_bit (32 - slab_bits numtables) (of_nat (numtables - 1)),
      sl_shift = 32 - slab_bits numtables,
      sl_array = replicate numtables
        \<lparr>lru_list = [], space_used = 0, space_max = maxmem div numtables, sizefunc = szf\<rparr>\<rparr>"

text \<open>
  Modelled from the spec: \<open>reclaim_space\<close> (util/storage/lruhash.c) is absent. Evict
  from the tail of the LRU until the memory budget of the table is respected. The evicted
  entries are collected, oldest first.
\<close>

function reclaim_space ::
  "('k, 'd) lruhash \<Rightarrow> ('k, 'd) lruhash_entry list
   \<Rightarrow> ('k, 'd) lruhash \<times> ('k, 'd) lruhash_entry list" where
  "reclaim_space t dead =
     (if space_used t > space_max t \<and> lru_list t \<noteq> [] then
        reclaim_space
          (t\<lparr>lru_list := butlast (lru_list t),
             space_used := space_used t - sizefunc t (last (lru_list t))\<rparr>)
          (dead @ [last (lru_list t)])
      else (t, dead))"
  by pat_completeness auto
termination
  by (relation "measure (\<lambda>(t, dead). length (lru_list t))") auto

declare reclaim_space.simps [simp del]

text \<open>
  Modelled from the spec: the entry locks (util/locks.h) and the delete function of the
  table are absent. What an insert does to an entry that is present, in order: the write
  lock of the entry is taken, the data is swapped in, the old data is freed, and the
  lock is released.
\<close>

datatype 'd entry_op = Lock_rw_wrlock | Swap_data 'd | Free_data 'd | Lock_rw_unlock

text \<open>
  Modelled from the spec: \<open>lruhash_insert\<close> (util/storage/lruhash.c) is absent.
  \<open>insert(hash, key, data)\<close>: if the key exists, swap the data in and free the old data
  while holding the write lock; else add a new entry and evict from the tail of the LRU
  until the memory budget is respected. The result is the table, what was done to the
  entry that was present, and the entries evicted. Memory accounting uses the size
  function of the table.
\<close>

definition lruhash_insert ::
  "('k, 'd) lruhash \<Rightarrow> hashvalue_t \<Rightarrow> 'k \<Rightarrow> 'd
   \<Rightarrow> ('k, 'd) lruhash \<times> 'd entry_op list \<times> ('k, 'd) lruhash_entry list" where
  "lruhash_insert t h k d =
     (case find (entry_matches h k) (lru_list t) of
        Some found \<Rightarrow>
          (let new = found\<lparr>e_data := d\<rparr>
           in (t\<lparr>lru_list := map (\<lambda>e. if e = found then new else e) (lru_list t),
                 space_used := space_used t + sizefunc t new - sizefunc t found\<rparr>,
               [Lock_rw_wrlock, Swap_data d, Free_data (e_data found), Lock_rw_unlock], []))
      | None \<Rightarrow>
          (let new = \<lparr>e_hash = h, e_key = k, e_data = d\<rparr>;
               (t', dead) = reclaim_space
                  (t\<lparr>lru_list := new # lru_list t,
                     space_used := space_used t + sizefunc t new\<rparr>) []
           in (t', [], dead)))"

text \<open>
  Modelled from the spec: \<open>slabhash_insert\<close> (util/storage/slabhash.c) is absent; the
  header says it uses \<open>lruhash_insert\<close> on the table the hash selects. The entry's key
  and hash are the arguments \<open>k\<close> and \<open>h\<close>.
\<close>

definition slabhash_insert ::
  "('k, 'd) slabhash \<Rightarrow> hashvalue_t \<Rightarrow> 'k \<Rightarrow> 'd
   \<Rightarrow> ('k, 'd) slabhash \<times> 'd entry_op list \<times> ('k, 'd) lruhash_entry list" where
  "slabhash_insert sl h k d =
     (let i = slab_idx sl h in
      if i < length (sl_array sl) then
        (let (t, freed, dead) = lruhash_insert (sl_array sl ! i) h k d
         in (sl\<lparr>sl_array := (sl_array sl)[i := t]\<rparr>, freed, dead))
      else (sl, [], []))"

subsection \<open>RRset cache update\<close>

text \<open>
  Modelled from the spec: the order of the trust levels, which the cache compares as
  numbers.
\<close>

fun trust_level :: "rrset_trust \<Rightarrow> nat" where
  "trust_level rrset_trust_add_noAA = 0"
| "trust_level rrset_trust_add_AA = 1"
| "trust_level rrset_trust_auth = 2"
| "trust_level rrset_trust_ans_AA = 3"
| "trust_level rrset_trust_validated = 4"

text \<open>
  Modelled from the spec: the compare function of the RRset cache is absent. The cache
  is keyed by owner, type, class and flags.
\<close>

definition rk_of :: "ub_packed_rrset_key \<Rightarrow> dname \<times> 16 word \<times> 16 word \<times> 32 word" where
  "rk_of k = (k_dname k, k_type k, k_class k, k_flags k)"

text \<open>Two RRsets have the same key.\<close>

definition rk_eq :: "ub_packed_rrset_key \<Rightarrow> ub_packed_rrset_key \<Rightarrow> bool" where
  "rk_eq a b = (rk_of a = rk_of b)"

text \<open>
  Modelled from the spec: the replacement test of \<open>rrset_cache_update\<close> is absent.
  The new record dominates: higher trust, or equal trust with later expiry.
\<close>

definition rrset_dominates :: "packed_rrset_data \<Rightarrow> packed_rrset_data \<Rightarrow> bool" where
  "rrset_dominates new old =
     (trust_level (d_trust new) > trust_level (d_trust old)
      \<or> (trust_level (d_trust new) = trust_level (d_trust old) \<and> d_ttl new > d_ttl old))"

text \<open>
  Modelled from the spec: \<open>rrset_cache_update\<close> (services/cache/rrset.c) is absent.
  If no entry exists, insert. Else replace only if the new record dominates; otherwise
  keep the existing entry and return that pointer to the caller. On replacement the data
  is swapped into the existing entry and its version id is bumped. The result says
  whether the RRset was in the cache, and gives the reference the caller must use. The
  memory bound of the RRset cache is not part of this model.
\<close>

definition rrset_cache_update ::
  "(addr \<Rightarrow> ub_packed_rrset_key) \<Rightarrow> addr list \<Rightarrow> rrset_ref \<Rightarrow> 32 word
   \<Rightarrow> bool \<times> rrset_ref \<times> (addr \<Rightarrow> ub_packed_rrset_key) \<times> addr list" where
  "rrset_cache_update h l r now =
     (case find (\<lambda>x. rk_eq (h x) (h (ref_key r))) l of
        None \<Rightarrow> (False, r, h, ref_key r # l)
      | Some x \<Rightarrow>
          if rrset_dominates (k_data (h (ref_key r))) (k_data (h x)) then
            (let kx = (h x)\<lparr>k_data := k_data (h (ref_key r)), k_id := Suc (k_id (h x))\<rparr>
             in (True, \<lparr>ref_key = x, ref_id = k_id kx\<rparr>, h(x := kx), l))
          else (True, \<lparr>ref_key = x, ref_id = k_id (h x)\<rparr>, h, l))"

subsection \<open>dns_cache_store_msg\<close>

text \<open>
  Modelled from the spec: \<open>reply_info_sortref\<close> (util/data/msgreply.c) is absent. The
  references are put in a fixed order, that of their addresses.
\<close>

definition reply_info_sortref :: "addr reply_info \<Rightarrow> addr reply_info" where
  "reply_info_sortref rep = rep\<lparr>ref := sort_key ref_key (ref rep)\<rparr>"

text \<open>
  Modelled from the spec: the body of the loop of \<open>reply_info_set_ttls\<close>, which is
  absent. \<open>now\<close> is added to the TTL of the RRset and to the TTL of each of its RRs
  and RRSIGs.
\<close>

definition add_ttls :: "32 word \<Rightarrow> ub_packed_rrset_key \<Rightarrow> ub_packed_rrset_key" where
  "add_ttls now k =
     k\<lparr>k_data := (k_data k)\<lparr>d_ttl := d_ttl (k_data k) + now,
                              rr_ttl := map (\<lambda>t. t + now) (rr_ttl (k_data k))\<rparr>\<rparr>"

text \<open>
  Modelled from the spec: \<open>reply_info_set_ttls\<close> (util/data/msgreply.c) is absent. On
  store the TTLs are set absolute: \<open>now\<close> is added to the TTL of the reply and, once
  for every referenced RRset, to the TTL of the RRset and of each of its RRs and RRSIGs.
\<close>

definition reply_info_set_ttls ::
  "(addr \<Rightarrow> ub_packed_rrset_key) \<Rightarrow> addr reply_info \<Rightarrow> 32 word
   \<Rightarrow> (addr \<Rightarrow> ub_packed_rrset_key) \<times> addr reply_info" where
  "reply_info_set_ttls h rep now =
     (fold (\<lambda>a h'. h'(a := add_ttls now (h' a))) (remdups (map ref_key (ref rep))) h,
      rep\<lparr>rep_ttl := rep_ttl rep + now\<rparr>)"

text \<open>
  The loop of \<open>store_rrsets\<close>: for every RRset of the reply the reference is set to the
  RRset and its id, the RRset cache is updated, and when the RRset was in the cache the
  reply is made to point to the cached one. The result is the new \<open>rrsets\<close> and
  \<open>ref\<close> arrays, and the RRset cache.
\<close>

fun store_rrsets_loop ::
  "(addr \<Rightarrow> ub_packed_rrset_key) \<Rightarrow> addr list \<Rightarrow> addr list \<Rightarrow> 32 word
   \<Rightarrow> addr list \<times> rrset_ref list \<times> (addr \<Rightarrow> ub_packed_rrset_key) \<times> addr list" where
  "store_rrsets_loop h l [] now = ([], [], h, l)"
| "store_rrsets_loop h l (a # as) now =
     (let (was_cached, r, h1, l1) =
            rrset_cache_update h l \<lparr>ref_key = a, ref_id = k_id (h a)\<rparr> now;
          a' = (if was_cached then ref_key r else a);
          (as', rs, h2, l2) = store_rrsets_loop h1 l1 as now
      in (a' # as', r # rs, h2, l2))"

definition store_rrsets ::
  "module_env \<Rightarrow> addr reply_info \<Rightarrow> 32 word \<Rightarrow> module_env \<times> addr reply_info" where
  "store_rrsets env rep now =
     (let (as, rs, h, l) = store_rrsets_loop (rrset_heap env) (rrset_lru env) (rrsets rep) now
      in (env\<lparr>rrset_heap := h, rrset_lru := l\<rparr>, rep\<lparr>rrsets := as, ref := rs\<rparr>))"

text \<open>
  \<open>dns_cache_store_msg\<close>. The reply is changed in place, so it is returned with the
  environment. \<open>ttl\<close> is read before the TTLs are set. \<open>query_info_entrysetup\<close>
  (util/data/msgreply.c) is absent: it allocates the entry for the key, the hash and the
  reply, and \<open>malloc_ok\<close> says whether that allocation succeeds. \<open>now\<close> is the value
  of \<open>time(NULL)\<close>.
\<close>

definition dns_cache_store_msg ::
  "bool \<Rightarrow> module_env \<Rightarrow> query_info \<Rightarrow> hashvalue_t \<Rightarrow> addr reply_info \<Rightarrow> 32 word
   \<Rightarrow> module_env \<times> addr reply_info" where
  "dns_cache_store_msg malloc_ok env qinfo hash rep now =
     (let ttl = rep_ttl rep;
          rep1 = rep\<lparr>ref := map (\<lambda>a. \<lparr>ref_key = a, ref_id = k_id (rrset_heap env a)\<rparr>)
                                 (rrsets rep)\<rparr>;
          rep2 = reply_info_sortref rep1;
          (h3, rep3) = reply_info_set_ttls (rrset_heap env) rep2 now;
          (env4, rep4) = store_rrsets (env\<lparr>rrset_heap := h3\<rparr>) rep3 now
      in if ttl = 0 then (env4, rep4) else
         let rep5 = reply_info_sortref rep4 in
         if \<not> malloc_ok then (env4, rep5) else
         (env4\<lparr>msg_cache := fst (slabhash_insert (msg_cache env4) hash qinfo rep5)\<rparr>, rep5))"


text \<open>The RRset cache holds an entry under the key of \<open>k\<close>.\<close>

definition rrset_cached :: "module_env \<Rightarrow> ub_packed_rrset_key \<Rightarrow> bool" where
  "rrset_cached env k = (\<exists>x \<in> set (rrset_lru env). rk_eq (rrset_heap env x) k)"


text \<open>The memory in use is the sum of the sizes of the entries.\<close>

definition lruhash_accounted :: "('k, 'd) lruhash \<Rightarrow> bool" where
  "lruhash_accounted t = (space_used t = sum_list (map (sizefunc t) (lru_list t)))"


section \<open>Finding a delegation in the cache\<close>

subsection \<open>RRset cache lookup and delegation points\<close>

text \<open>
  Modelled from the spec: \<open>rrset_cache_lookup\<close> (services/cache/rrset.c) is absent.
  The entry under the key (owner, type, class, flags), unless it is expired at \<open>now\<close>;
  the LRU is touched on hit.
\<close>

definition rrset_cache_lookup ::
  "(addr \<Rightarrow> ub_packed_rrset_key) \<Rightarrow> addr list \<Rightarrow> dname \<Rightarrow> 16 word \<Rightarrow> 16 word \<Rightarrow> 32 word
   \<Rightarrow> 32 word \<Rightarrow> addr option \<times> addr list" where
  "rrset_cache_lookup h l nm t c fl now =
     (case find (\<lambda>x. rk_of (h x) = (nm, t, c, fl)) l of
        None \<Rightarrow> (None, l)
      | Some x \<Rightarrow> if rrset_expired now (h x) then (None, l) else (Some x, x # remove1 x l))"

text \<open>
  Modelled from the spec: \<open>struct delegpt\<close> and its functions (iterator/iter_delegpt.c)
  are absent. A delegation point is the owner name of the zone cut, the NS names, and
  the addresses resolved for them. It is constructed from a cached NS RRset, and the A
  and AAAA records found in the RRset cache for each NS are merged into it. Everything
  is allocated in the region; a function that fails returns false.
\<close>

record delegpt =
  dp_name :: dname
  dp_nslist :: "dname list"
  dp_target_list :: "8 word list list"

text \<open>
  Modelled from the spec: \<open>delegpt_create\<close> is absent. One allocation; the new
  delegation point has no name, no NS names and no addresses.
\<close>

definition delegpt_create :: "region \<Rightarrow> delegpt option \<times> region" where
  "delegpt_create region =
     (let (ok, r1) = region_alloc region
      in (if ok then Some \<lparr>dp_name = [], dp_nslist = [], dp_target_list = []\<rparr> else None, r1))"

text \<open>
  Modelled from the spec: \<open>delegpt_set_name\<close> is absent. One allocation, for the
  copy of the owner name.
\<close>

definition delegpt_set_name :: "delegpt \<Rightarrow> region \<Rightarrow> dname \<Rightarrow> bool \<times> delegpt \<times> region" where
  "delegpt_set_name dp region nm =
     (let (ok, r1) = region_alloc region
      in (ok, if ok then dp\<lparr>dp_name := nm\<rparr> else dp, r1))"

text \<open>
  Modelled from the spec: the loop of \<open>delegpt_rrset_add_ns\<close>, which is absent. One
  NS name, with one allocation, for every RR of the NS RRset; the name follows the two
  length bytes of the RDATA.
\<close>

fun delegpt_add_ns_rrs :: "delegpt \<Rightarrow> region \<Rightarrow> 8 word list list \<Rightarrow> bool \<times> delegpt \<times> region" where
  "delegpt_add_ns_rrs dp region [] = (True, dp, region)"
| "delegpt_add_ns_rrs dp region (rd # rds) =
     (let (ok, r1) = region_alloc region in
      if \<not> ok then (False, dp, r1)
      else delegpt_add_ns_rrs (dp\<lparr>dp_nslist := drop 2 rd # dp_nslist dp\<rparr>) r1 rds)"

text \<open>
  Modelled from the spec: \<open>delegpt_rrset_add_ns\<close> is absent. The NS names of the
  \<open>count\<close> RRs of the RRset are added.
\<close>

definition delegpt_rrset_add_ns ::
  "delegpt \<Rightarrow> region \<Rightarrow> ub_packed_rrset_key \<Rightarrow> bool \<times> delegpt \<times> region" where
  "delegpt_rrset_add_ns dp region nskey =
     delegpt_add_ns_rrs dp region (take (d_count (k_data nskey)) (rr_data (k_data nskey)))"

text \<open>
  Modelled from the spec: the loop of \<open>delegpt_add_rrset_A\<close> and
  \<open>delegpt_add_rrset_AAAA\<close>, which are absent. One address, with one allocation, for
  every RR of the RRset.
\<close>

fun delegpt_add_addr_rrs :: "delegpt \<Rightarrow> region \<Rightarrow> 8 word list list \<Rightarrow> bool \<times> delegpt \<times> region" where
  "delegpt_add_addr_rrs dp region [] = (True, dp, region)"
| "delegpt_add_addr_rrs dp region (rd # rds) =
     (let (ok, r1) = region_alloc region in
      if \<not> ok then (False, dp, r1)
      else delegpt_add_addr_rrs (dp\<lparr>dp_target_list := drop 2 rd # dp_target_list dp\<rparr>) r1 rds)"

text \<open>
  Modelled from the spec: \<open>delegpt_add_rrset_A\<close> is absent. The addresses of the
  \<open>count\<close> RRs of the A RRset are merged into the delegation point.
\<close>

definition delegpt_add_rrset_A ::
  "delegpt \<Rightarrow> region \<Rightarrow> ub_packed_rrset_key \<Rightarrow> bool \<times> delegpt \<times> region" where
  "delegpt_add_rrset_A dp region akey =
     delegpt_add_addr_rrs dp region (take (d_count (k_data akey)) (rr_data (k_data akey)))"

text \<open>
  Modelled from the spec: \<open>delegpt_add_rrset_AAAA\<close> is absent. The addresses of the
  \<open>count\<close> RRs of the AAAA RRset are merged into the delegation point.
\<close>

definition delegpt_add_rrset_AAAA ::
  "delegpt \<Rightarrow> region \<Rightarrow> ub_packed_rrset_key \<Rightarrow> bool \<times> delegpt \<times> region" where
  "delegpt_add_rrset_AAAA dp region akey =
     delegpt_add_addr_rrs dp region (take (d_count (k_data akey)) (rr_data (k_data akey)))"

subsection \<open>find_deleg_ns\<close>

text \<open>
  Reading past the end of the name is undefined in C; the model reports it.
\<close>

datatype fault = OutOfBounds

text \<open>
  \<open>find_deleg_ns\<close>: \<open>qn\<close> holds the \<open>qnamelen\<close> bytes of \<open>qname\<close> that are left. While bytes
  are left, the NS RRset of the name is looked up (flags 0); on a miss the front label is
  snipped off: its length byte \<open>lablen\<close> and \<open>lablen\<close> bytes. A label that claims more
  bytes than are left makes \<open>qnamelen\<close> wrap around and the next read leave the name.
\<close>

function find_deleg_ns ::
  "(addr \<Rightarrow> ub_packed_rrset_key) \<Rightarrow> addr list \<Rightarrow> dname \<Rightarrow> 16 word \<Rightarrow> 32 word
   \<Rightarrow> fault + (addr option \<times> addr list)" where
  "find_deleg_ns h l qn qc now =
     (if length qn > 0 then
        (case rrset_cache_lookup h l qn LDNS_RR_TYPE_NS qc 0 now of
           (Some rrset, l1) \<Rightarrow> Inr (Some rrset, l1)
         | (None, l1) \<Rightarrow>
             (let lablen = unat (hd qn) in
              if lablen + 1 > length qn then Inl OutOfBounds
              else find_deleg_ns h l1 (drop (lablen + 1) qn) qc now))
      else Inr (None, l))"
  by pat_completeness auto
termination
  by (relation "measure (\<lambda>(h, l, qn, qc, now). length qn)") auto

declare find_deleg_ns.simps [simp del]

subsection \<open>The referral message\<close>

text \<open>
  \<open>addr_to_additional\<close>, and the same step of \<open>find_add_ds\<close> for the authority section:
  the copy is appended to the RRsets of the message and the section count goes up, if
  the copy succeeds.
\<close>

definition addr_to_additional ::
  "ub_packed_rrset_key \<Rightarrow> region \<Rightarrow> dns_msg \<Rightarrow> 32 word \<Rightarrow> dns_msg \<times> region" where
  "addr_to_additional rrset region msg now =
     (case copy_rrset rrset region now of
        (Some ck, r1) \<Rightarrow>
          (msg\<lparr>msg_rep := (msg_rep msg)\<lparr>rrsets := rrsets (msg_rep msg) @ [ck],
                                          ar_numrrsets := Suc (ar_numrrsets (msg_rep msg))\<rparr>\<rparr>, r1)
      | (None, r1) \<Rightarrow> (msg, r1))"

definition find_add_ds ::
  "(addr \<Rightarrow> ub_packed_rrset_key) \<Rightarrow> addr list \<Rightarrow> region \<Rightarrow> dns_msg \<Rightarrow> delegpt \<Rightarrow> 32 word
   \<Rightarrow> dns_msg \<times> region \<times> addr list" where
  "find_add_ds h l region msg dp now =
     (let (ds, l1) = rrset_cache_lookup h l (dp_name dp) LDNS_RR_TYPE_DS
                       (qclass (msg_qinfo msg)) 0 now;
          (rrset, l2) = (if ds = None
                         then rrset_cache_lookup h l1 (dp_name dp) LDNS_RR_TYPE_NSEC
                                (qclass (msg_qinfo msg)) 0 now
                         else (ds, l1))
      in case rrset of
           None \<Rightarrow> (msg, region, l2)
         | Some a \<Rightarrow>
             (case copy_rrset (h a) region now of
                (Some ck, r1) \<Rightarrow>
                  (msg\<lparr>msg_rep := (msg_rep msg)\<lparr>rrsets := rrsets (msg_rep msg) @ [ck],
                           ns_numrrsets := Suc (ns_numrrsets (msg_rep msg))\<rparr>\<rparr>, r1, l2)
              | (None, r1) \<Rightarrow> (msg, r1, l2)))"

text \<open>
  The A or the AAAA half of one step of \<open>find_add_addrs\<close>: look up, add the addresses
  to the delegation point (a failure ends \<open>find_add_addrs\<close>), and add the RRset to the
  additional section when there is a message.
\<close>

definition find_add_addr_type ::
  "(addr \<Rightarrow> ub_packed_rrset_key) \<Rightarrow> 16 word \<Rightarrow> 32 word \<Rightarrow> 16 word \<Rightarrow> dname
   \<Rightarrow> delegpt \<times> dns_msg option \<times> region \<times> addr list
   \<Rightarrow> bool \<times> delegpt \<times> dns_msg option \<times> region \<times> addr list" where
  "find_add_addr_type h qc now t nm st =
     (let (dp, msg, region, l) = st;
          (akey, l1) = rrset_cache_lookup h l nm t qc 0 now
      in case akey of
           None \<Rightarrow> (True, dp, msg, region, l1)
         | Some a \<Rightarrow>
             (let (ok, dp1, r1) =
                    (if t = LDNS_RR_TYPE_A then delegpt_add_rrset_A dp region (h a)
                     else delegpt_add_rrset_AAAA dp region (h a))
              in if \<not> ok then (False, dp1, msg, r1, l1)
                 else (case msg of
                         None \<Rightarrow> (True, dp1, None, r1, l1)
                       | Some m \<Rightarrow>
                           (let (m1, r2) = addr_to_additional (h a) r1 m now
                            in (True, dp1, Some m1, r2, l1)))))"

fun find_add_addrs ::
  "(addr \<Rightarrow> ub_packed_rrset_key) \<Rightarrow> 16 word \<Rightarrow> 32 word \<Rightarrow> dname list
   \<Rightarrow> delegpt \<times> dns_msg option \<times> region \<times> addr list
   \<Rightarrow> bool \<times> delegpt \<times> dns_msg option \<times> region \<times> addr list" where
  "find_add_addrs h qc now [] st = (True, st)"
| "find_add_addrs h qc now (ns # nss) st =
     (case find_add_addr_type h qc now LDNS_RR_TYPE_A ns st of
        (False, st1) \<Rightarrow> (False, st1)
      | (True, st1) \<Rightarrow>
          (case find_add_addr_type h qc now LDNS_RR_TYPE_AAAA ns st1 of
             (False, st2) \<Rightarrow> (False, st2)
           | (True, st2) \<Rightarrow> find_add_addrs h qc now nss st2))"

text \<open>
  \<open>create_msg\<close>: four allocations (the message, the name, the reply, the array of
  RRsets), then the copy of the NS RRset as the first RRset, in the authority section.
\<close>

definition create_msg ::
  "dname \<Rightarrow> 16 word \<Rightarrow> 16 word \<Rightarrow> region \<Rightarrow> ub_packed_rrset_key \<Rightarrow> 32 word
   \<Rightarrow> dns_msg option \<times> region" where
  "create_msg qn qt qc region nskey now =
     (let (msg_ok, r1) = region_alloc region in
      if \<not> msg_ok then (None, r1) else
      let (qname_ok, r2) = region_alloc r1 in
      if \<not> qname_ok then (None, r2) else
      let (rep_ok, r3) = region_alloc r2 in
      if \<not> rep_ok then (None, r3) else
      let (rrsets_ok, r4) = region_alloc r3 in
      if \<not> rrsets_ok then (None, r4) else
      (case copy_rrset nskey r4 now of
         (None, r5) \<Rightarrow> (None, r5)
       | (Some ck, r5) \<Rightarrow>
           (Some \<lparr>msg_qinfo = \<lparr>qname = qn, qtype = qt, qclass = qc\<rparr>,
                  msg_rep = \<lparr>rep_flags = BIT_QR, rep_qdcount = 1, rep_ttl = 0,
                    an_numrrsets = 0, ns_numrrsets = 1, ar_numrrsets = 0,
                    rrsets = [ck], ref = []\<rparr>\<rparr>, r5)))"

subsection \<open>dns_cache_find_delegation\<close>

text \<open>
  \<open>dns_cache_find_delegation\<close>. \<open>want_msg\<close> says whether the caller passes a place
  for the referral message. NULL is returned when no NS RRset is found, and when the
  delegation point, its name or the message cannot be allocated; a failure of
  \<open>delegpt_rrset_add_ns\<close> or of \<open>find_add_addrs\<close> is only logged.
\<close>

definition dns_cache_find_delegation ::
  "module_env \<Rightarrow> dname \<Rightarrow> 16 word \<Rightarrow> 16 word \<Rightarrow> region \<Rightarrow> bool \<Rightarrow> 32 word
   \<Rightarrow> fault + (delegpt option \<times> dns_msg option \<times> region \<times> module_env)" where
  "dns_cache_find_delegation env qn qt qc region want_msg now =
     (case find_deleg_ns (rrset_heap env) (rrset_lru env) qn qc now of
        Inl f \<Rightarrow> Inl f
      | Inr (None, l1) \<Rightarrow> Inr (None, None, region, env\<lparr>rrset_lru := l1\<rparr>)
      | Inr (Some nskey, l1) \<Rightarrow>
          (let h = rrset_heap env;
               env1 = env\<lparr>rrset_lru := l1\<rparr>;
               (dpo, r1) = delegpt_create region
           in case dpo of
                None \<Rightarrow> Inr (None, None, r1, env1)
              | Some dp0 \<Rightarrow>
                  (let (name_ok, dp1, r2) = delegpt_set_name dp0 r1 (k_dname (h nskey)) in
                   if \<not> name_ok then Inr (None, None, r2, env1) else
                   let (msg, r3) = (if want_msg then create_msg qn qt qc r2 (h nskey) now
                                    else (None, r2)) in
                   if want_msg \<and> msg = None then Inr (None, None, r3, env1) else
                   let (ns_ok, dp2, r4) = delegpt_rrset_add_ns dp1 r3 (h nskey);
                       (msg2, r5, l2) = (case msg of
                                           None \<Rightarrow> (None, r4, l1)
                                         | Some m \<Rightarrow>
                                             (let (m1, ra, la) = find_add_ds h l1 r4 m dp2 now
                                              in (Some m1, ra, la)));
                       (addrs_ok, dp3, msg3, r6, l3) =
                          find_add_addrs h qc now (dp_nslist dp2) (dp2, msg2, r5, l2)
                   in Inr (Some dp3, msg3, r6, env1\<lparr>rrset_lru := l3\<rparr>))))"

subsection \<open>Names in wire format\<close>

text \<open>
  A name in wire format is a sequence of labels, each a length byte followed by that
  many bytes, ended by the root label, the byte 0.
\<close>

function dname_valid :: "dname \<Rightarrow> bool" where
  "dname_valid nm =
     (case nm of
        [] \<Rightarrow> False
      | b # rest \<Rightarrow>
          if b = 0 then rest = []
          else unat b \<le> length rest \<and> dname_valid (drop (unat b) rest))"
  by pat_completeness auto
termination
  by (relation "measure length") auto

declare dname_valid.simps [simp del]

text \<open>
  The name itself and its ancestors up to the root, longest first: what is left after
  stripping labels from the front.
\<close>

function dname_ancestors :: "dname \<Rightarrow> dname list" where
  "dname_ancestors nm =
     (case nm of
        [] \<Rightarrow> []
      | b # rest \<Rightarrow> nm # dname_ancestors (drop (unat b) rest))"
  by pat_completeness auto
termination
  by (relation "measure length") auto

declare dname_ancestors.simps [simp del]

text \<open>The RRset cache holds an unexpired NS RRset (flags 0) for the name.\<close>

definition ns_cached :: "module_env \<Rightarrow> 16 word \<Rightarrow> 32 word \<Rightarrow> dname \<Rightarrow> bool" where
  "ns_cached env qc now nm =
     (fst (rrset_cache_lookup (rrset_heap env) (rrset_lru env) nm LDNS_RR_TYPE_NS qc 0 now) \<noteq> None)"

text \<open>
  The allocations \<open>dns_cache_find_delegation\<close> needs before it can return a delegation
  point: the delegation point and its name, and with a message the four of
  \<open>create_msg\<close> and the three of \<open>copy_rrset\<close>.
\<close>

definition deleg_allocs :: "bool \<Rightarrow> nat" where
  "deleg_allocs want_msg = (if want_msg then 9 else 2)"


section \<open>Configuration parser actions (util/configparser.c)\<close>

text \<open>
  The actions of the generated parser work on the global \<open>cfg_parser\<close>: the
  configuration being filled in and the error count. \<open>struct config_file\<close> and
  \<open>struct config_parser_state\<close> are declared in util/config_file.h, which is absent;
  the fields below are the ones the modelled actions assign, and every other field of
  the configuration is in the extension part of the record. \<open>yyerror\<close> is
  \<open>ub_c_error\<close> (util/config_file.c, absent): the model counts the call and keeps the
  message. The calls of \<open>verbose\<close> are kept with their level. \<open>OUTYY\<close> expands to
  nothing, and \<open>free\<close> has no effect on the state.
\<close>

record config_file =
  host_ttl :: int
  bogus_ttl :: int
  val_clean_additional :: bool
  val_permissive_mode :: bool

datatype verbosity_value = NO_VERBOSE | VERB_OPS | VERB_DETAIL | VERB_QUERY | VERB_ALGO

record 'c config_parser_state =
  cfg :: "'c config_file_scheme"
  errors :: nat
  error_messages :: "string list"
  verbose_calls :: "(verbosity_value \<times> string) list"

definition yyerror :: "string \<Rightarrow> 'c config_parser_state \<Rightarrow> 'c config_parser_state" where
  "yyerror message st =
     st\<lparr>errors := Suc (errors st), error_messages := error_messages st @ [message]\<rparr>"

definition verbose ::
  "verbosity_value \<Rightarrow> string \<Rightarrow> 'c config_parser_state \<Rightarrow> 'c config_parser_state" where
  "verbose level message st = st\<lparr>verbose_calls := verbose_calls st @ [(level, message)]\<rparr>"

subsection \<open>atoi\<close>

text \<open>
  The C library's \<open>atoi\<close>, which is not code of this repository: white space, an
  optional sign, then decimal digits up to the first other character; 0 when there is
  no digit. The result is an \<open>int\<close>. For a number outside \<open>int\<close> the C standard
  leaves the result undefined; the model does what the GNU C library does on a 64-bit
  system, where \<open>atoi\<close> is \<open>(int) strtol(s, NULL, 10)\<close>: the number is clamped to the
  range of \<open>long\<close> and then truncated to the 32 bits of an \<open>int\<close>.
\<close>

definition is_space :: "char \<Rightarrow> bool" where
  "is_space c = (of_char c \<in> {32, 9, 10, 11, 12, 13 :: nat})"

definition is_digit :: "char \<Rightarrow> bool" where
  "is_digit c = (48 \<le> (of_char c :: nat) \<and> (of_char c :: nat) \<le> 57)"

definition digit_val :: "char \<Rightarrow> int" where
  "digit_val c = int (of_char c) - 48"

definition strtol :: "string \<Rightarrow> int" where
  "strtol s =
     (let s1 = dropWhile is_space s;
          neg = (s1 \<noteq> [] \<and> hd s1 = CHR ''-'');
          s2 = (if s1 \<noteq> [] \<and> (hd s1 = CHR ''-'' \<or> hd s1 = CHR ''+'') then tl s1 else s1);
          v = foldl (\<lambda>a c. 10 * a + digit_val c) 0 (takeWhile is_digit s2);
          n = (if neg then - v else v)
      in max (- (2 ^ 63)) (min (2 ^ 63 - 1) n))"

definition atoi :: "string \<Rightarrow> int" where
  "atoi s = sint (word_of_int (strtol s) :: 32 word)"

subsection \<open>The actions\<close>

text \<open>Case 189, \<open>server_infra_host_ttl: VAR_INFRA_HOST_TTL STRING_ARG\<close>.\<close>

definition server_infra_host_ttl ::
  "string \<Rightarrow> 'c config_parser_state \<Rightarrow> 'c config_parser_state" where
  "server_infra_host_ttl str st =
     (if atoi str = 0 \<and> str \<noteq> ''0'' then yyerror ''number expected'' st
      else st\<lparr>cfg := (cfg st)\<lparr>host_ttl := atoi str\<rparr>\<rparr>)"

text \<open>Case 190, \<open>server_infra_lame_ttl: VAR_INFRA_LAME_TTL STRING_ARG\<close>.\<close>

definition server_infra_lame_ttl ::
  "string \<Rightarrow> 'c config_parser_state \<Rightarrow> 'c config_parser_state" where
  "server_infra_lame_ttl str st =
     verbose VERB_DETAIL
       (''ignored infra-lame-ttl: '' @ str @ '' (option removed, use infra-host-ttl)'') st"

text \<open>Case 192, \<open>server_infra_cache_lame_size: VAR_INFRA_CACHE_LAME_SIZE STRING_ARG\<close>.\<close>

definition server_infra_cache_lame_size ::
  "string \<Rightarrow> 'c config_parser_state \<Rightarrow> 'c config_parser_state" where
  "server_infra_cache_lame_size str st =
     verbose VERB_DETAIL
       (''ignored infra-cache-lame-size: '' @ str
          @ '' (option removed, use infra-cache-numhosts)'') st"

text \<open>Case 216, \<open>server_bogus_ttl: VAR_BOGUS_TTL STRING_ARG\<close>.\<close>

definition server_bogus_ttl ::
  "string \<Rightarrow> 'c config_parser_state \<Rightarrow> 'c config_parser_state" where
  "server_bogus_ttl str st =
     (if atoi str = 0 \<and> str \<noteq> ''0'' then yyerror ''number expected'' st
      else st\<lparr>cfg := (cfg st)\<lparr>bogus_ttl := atoi str\<rparr>\<rparr>)"

text \<open>Case 217, \<open>server_val_clean_additional: VAR_VAL_CLEAN_ADDITIONAL STRING_ARG\<close>.\<close>

definition server_val_clean_additional ::
  "string \<Rightarrow> 'c config_parser_state \<Rightarrow> 'c config_parser_state" where
  "server_val_clean_additional str st =
     (if str \<noteq> ''yes'' \<and> str \<noteq> ''no'' then yyerror ''expected yes or no.'' st
      else st\<lparr>cfg := (cfg st)\<lparr>val_clean_additional := (str = ''yes'')\<rparr>\<rparr>)"

text \<open>Case 218, \<open>server_val_permissive_mode: VAR_VAL_PERMISSIVE_MODE STRING_ARG\<close>.\<close>

definition server_val_permissive_mode ::
  "string \<Rightarrow> 'c config_parser_state \<Rightarrow> 'c config_parser_state" where
  "server_val_permissive_mode str st =
     (if str \<noteq> ''yes'' \<and> str \<noteq> ''no'' then yyerror ''expected yes or no.'' st
      else st\<lparr>cfg := (cfg st)\<lparr>val_permissive_mode := (str = ''yes'')\<rparr>\<rparr>)"

section \<open>The validator's result (validator/validator.h)\<close>

datatype sec_status =
  sec_status_indeterminate | sec_status_insecure | sec_status_bogus | sec_status_secure

datatype rcode = LDNS_RCODE_NOERROR | LDNS_RCODE_SERVFAIL

text \<open>
  \<open>struct val_env\<close>, the fields that do not point to other modules' data. The NSEC3
  iteration table is an association of key sizes and iteration counts.
\<close>

record val_env =
  date_override :: int
  ve_bogus_ttl :: "32 word"
  clean_additional :: bool
  permissive_mode :: bool
  nsec3_keysize :: "nat list"
  nsec3_maxiter :: "nat list"

text \<open>
  Modelled from the spec: the code that fills \<open>struct val_env\<close> from the configuration
  (validator/validator.c) is absent. The validator consumes \<open>bogus-ttl\<close>,
  \<open>val-clean-additional\<close> and \<open>val-permissive-mode\<close> from the configuration.
\<close>

definition val_apply_cfg :: "val_env \<Rightarrow> 'c config_file_scheme \<Rightarrow> val_env" where
  "val_apply_cfg ve c =
     ve\<lparr>ve_bogus_ttl := word_of_int (bogus_ttl c),
        clean_additional := val_clean_additional c,
        permissive_mode := val_permissive_mode c\<rparr>"

text \<open>
  What the FINISHED state of the validator hands on: the security status and the answer
  code the client sees, whether the \<open>ad\<close> bit is set, and the status and TTL with which
  the reply is cached.
\<close>

record val_outcome =
  client_security :: sec_status
  client_rcode :: rcode
  client_ad :: bool
  cached_security :: sec_status
  cached_ttl :: "32 word"

text \<open>
  Modelled from the spec: \<open>processFinished\<close> (validator/validator.c) is absent.
  FINISHED sets the security status of the reply; in \<open>permissive_mode\<close> it downgrades
  \<open>bogus\<close> to \<open>indeterminate\<close> for the client, but does not cache as secure. A bogus
  result is cached with TTL \<open>bogus_ttl\<close>. The client of a bogus reply receives SERVFAIL;
  the \<open>ad\<close> bit is set on a secure reply only.
\<close>

definition val_finished :: "val_env \<Rightarrow> sec_status \<Rightarrow> 32 word \<Rightarrow> val_outcome" where
  "val_finished ve status ttl =
     (let shown = (if status = sec_status_bogus \<and> permissive_mode ve
                   then sec_status_indeterminate else status)
      in \<lparr>client_security = shown,
          client_rcode = (if shown = sec_status_bogus then LDNS_RCODE_SERVFAIL
                          else LDNS_RCODE_NOERROR),
          client_ad = (shown = sec_status_secure),
          cached_security = status,
          cached_ttl = (if status = sec_status_bogus then ve_bogus_ttl ve else ttl)\<rparr>)"


section \<open>The iterator's query state (iterator/iterator.h)\<close>

definition MAX_RESTART_COUNT :: nat where "MAX_RESTART_COUNT = 8"
definition MAX_REFERRAL_COUNT :: nat where "MAX_REFERRAL_COUNT = 30"
definition UNKNOWN_SERVER_NICENESS :: nat where "UNKNOWN_SERVER_NICENESS = 376"
definition USEFUL_SERVER_TOP_TIMEOUT :: nat where "USEFUL_SERVER_TOP_TIMEOUT = 120000"
definition OUTBOUND_MSG_RETRY :: nat where "OUTBOUND_MSG_RETRY = 4"

datatype iter_state =
  INIT_REQUEST_STATE | INIT_REQUEST_2_STATE | INIT_REQUEST_3_STATE | QUERYTARGETS_STATE
  | QUERY_RESP_STATE | PRIME_RESP_STATE | FINISHED_STATE

text \<open>
  \<open>struct iter_qstate\<close>, the fields the budgets depend on: the state, the two counters,
  and the delegation point, of which the model keeps for every target address the number
  of outbound retries left. The counters are \<open>int\<close> in the source; they start at 0
  and only go up, one at a time, so the model counts in natural numbers.
  \<open>return_rcode\<close> is the answer code once the query has ended, and \<open>outbound_sent\<close>
  counts the outbound queries emitted so far.
\<close>

record iter_qstate =
  state :: iter_state
  query_restart_count :: nat
  referral_count :: nat
  dp_retries :: "nat list"
  return_rcode :: "rcode option"
  outbound_sent :: nat

text \<open>
  Modelled from the spec: the classification of a response (iterator/iter_utils.c) is
  absent. A response is a final answer, a CNAME to follow, a referral to a delegation
  point with so many target addresses, an NXDOMAIN or NODATA, or a throwaway.
\<close>

datatype response_type =
  RESPONSE_ANSWER | RESPONSE_CNAME | RESPONSE_REFERRAL nat | RESPONSE_NXDOMAIN_NODATA
  | RESPONSE_THROWAWAY

text \<open>
  Modelled from the spec: what the rest of the resolver contributes to a step of the
  state machine, the caches, the configuration, the sub-queries and the network.
\<close>

datatype iter_event =
  Cache_hit
  | Delegation nat
  | Pass
  | Override nat
  | Target_resolved
  | Select nat
  | Exhausted
  | Reply response_type
  | Timeout

text \<open>
  Modelled from the spec: per-query state is created on arrival, with both counters 0,
  no delegation point and nothing sent.
\<close>

definition iter_new_query :: iter_qstate where
  "iter_new_query = \<lparr>state = INIT_REQUEST_STATE, query_restart_count = 0, referral_count = 0,
     dp_retries = [], return_rcode = None, outbound_sent = 0\<rparr>"

text \<open>
  Modelled from the spec: a delegation point with \<open>n\<close> target addresses, none of them
  tried, each with the retries of \<open>OUTBOUND_MSG_RETRY\<close>.
\<close>

definition fresh_dp :: "nat \<Rightarrow> nat list" where
  "fresh_dp n = replicate n OUTBOUND_MSG_RETRY"

text \<open>
  Modelled from the spec: the query ends in the FINISHED state with an answer code.
\<close>

definition iter_finish :: "rcode \<Rightarrow> iter_qstate \<Rightarrow> iter_qstate" where
  "iter_finish rc s = s\<lparr>state := FINISHED_STATE, return_rcode := Some rc\<rparr>"

text \<open>
  Modelled from the spec: the state machine (iterator/iterator.c) is absent.

  INIT: consult the message cache; on hit, jump to FINISHED with the cached reply.
  Otherwise locate the closest enclosing cached NS to form a starting delegation point;
  if there is none, root priming is arranged and the query is suspended until the primed
  delegation point arrives (\<open>Delegation n\<close> is either, with \<open>n\<close> target addresses).
  INIT2 and INIT3: stub priming and forward zones may override the delegation point
  (\<open>Override n\<close>); otherwise the query passes on.

  QUERYTARGETS: target sub-queries add addresses to the delegation point
  (\<open>Target_resolved\<close>); if a target is usable, one outbound query is emitted to it and
  its remaining retries are decremented (\<open>Select i\<close>); on exhaustion of all targets and
  retries the query ends with SERVFAIL. Per outbound attempt there are up to 4 retries.

  QUERY_RESP: a final answer, NXDOMAIN or NODATA finalizes; a CNAME increments
  \<open>query_restart_count\<close> and goes to INIT; a referral increments \<open>referral_count\<close>,
  takes the new delegation point and goes to QUERYTARGETS; a throwaway response or a
  timeout goes to QUERYTARGETS. A query's restart count is at most 8 and its referral
  count at most 30: a query whose restart count or referral count is exceeded is
  immediately terminated with SERVFAIL.
\<close>

fun iter_step :: "iter_event \<Rightarrow> iter_qstate \<Rightarrow> iter_qstate" where
  "iter_step ev s =
     (case state s of
        INIT_REQUEST_STATE \<Rightarrow>
          (case ev of
             Cache_hit \<Rightarrow> iter_finish LDNS_RCODE_NOERROR s
           | Delegation n \<Rightarrow> s\<lparr>dp_retries := fresh_dp n, state := INIT_REQUEST_2_STATE\<rparr>
           | _ \<Rightarrow> s)
      | INIT_REQUEST_2_STATE \<Rightarrow>
          (case ev of
             Pass \<Rightarrow> s\<lparr>state := INIT_REQUEST_3_STATE\<rparr>
           | Override n \<Rightarrow> s\<lparr>dp_retries := fresh_dp n, state := INIT_REQUEST_3_STATE\<rparr>
           | _ \<Rightarrow> s)
      | INIT_REQUEST_3_STATE \<Rightarrow>
          (case ev of
             Pass \<Rightarrow> s\<lparr>state := QUERYTARGETS_STATE\<rparr>
           | Override n \<Rightarrow> s\<lparr>dp_retries := fresh_dp n, state := QUERYTARGETS_STATE\<rparr>
           | _ \<Rightarrow> s)
      | QUERYTARGETS_STATE \<Rightarrow>
          (case ev of
             Target_resolved \<Rightarrow> s\<lparr>dp_retries := dp_retries s @ [OUTBOUND_MSG_RETRY]\<rparr>
           | Select i \<Rightarrow>
               if i < length (dp_retries s) \<and> 0 < dp_retries s ! i then
                 s\<lparr>dp_retries := (dp_retries s)[i := dp_retries s ! i - 1],
                   outbound_sent := Suc (outbound_sent s),
                   state := QUERY_RESP_STATE\<rparr>
               else s
           | Exhausted \<Rightarrow>
               if list_all (\<lambda>r. r = 0) (dp_retries s) then iter_finish LDNS_RCODE_SERVFAIL s
               else s
           | _ \<Rightarrow> s)
      | QUERY_RESP_STATE \<Rightarrow>
          (case ev of
             Reply RESPONSE_ANSWER \<Rightarrow> iter_finish LDNS_RCODE_NOERROR s
           | Reply RESPONSE_NXDOMAIN_NODATA \<Rightarrow> iter_finish LDNS_RCODE_NOERROR s
           | Reply RESPONSE_CNAME \<Rightarrow>
               if Suc (query_restart_count s) > MAX_RESTART_COUNT
               then iter_finish LDNS_RCODE_SERVFAIL s
               else s\<lparr>query_restart_count := Suc (query_restart_count s),
                      state := INIT_REQUEST_STATE\<rparr>
           | Reply (RESPONSE_REFERRAL n) \<Rightarrow>
               if Suc (referral_count s) > MAX_REFERRAL_COUNT
               then iter_finish LDNS_RCODE_SERVFAIL s
               else s\<lparr>referral_count := Suc (referral_count s), dp_retries := fresh_dp n,
                      state := QUERYTARGETS_STATE\<rparr>
           | Reply RESPONSE_THROWAWAY \<Rightarrow> s\<lparr>state := QUERYTARGETS_STATE\<rparr>
           | Timeout \<Rightarrow> s\<lparr>state := QUERYTARGETS_STATE\<rparr>
           | _ \<Rightarrow> s)
      | PRIME_RESP_STATE \<Rightarrow>
          (case ev of Pass \<Rightarrow> iter_finish LDNS_RCODE_NOERROR s | _ \<Rightarrow> s)
      | FINISHED_STATE \<Rightarrow> s)"

declare iter_step.simps [simp del]

text \<open>The life of a query: the events in the order in which they arrive.\<close>

fun iter_run :: "iter_event list \<Rightarrow> iter_qstate \<Rightarrow> iter_qstate" where
  "iter_run [] s = s"
| "iter_run (ev # evs) s = iter_run evs (iter_step ev s)"

text \<open>
  Every delegation point that the query has during the run has at most \<open>D\<close> target
  addresses.
\<close>

fun targets_bounded :: "nat \<Rightarrow> iter_event list \<Rightarrow> iter_qstate \<Rightarrow> bool" where
  "targets_bounded D [] s = (length (dp_retries s) \<le> D)"
| "targets_bounded D (ev # evs) s =
     (length (dp_retries s) \<le> D \<and> targets_bounded D evs (iter_step ev s))"

text \<open>
  The bound behind the budgets: the queries sent, the retries left at the targets of the
  current delegation point, and the retries of the targets it may still get, against the
  delegation points the counters allow.
\<close>

definition work_bounded :: "nat \<Rightarrow> iter_qstate \<Rightarrow> bool" where
  "work_bounded D s =
     (query_restart_count s \<le> MAX_RESTART_COUNT \<and> referral_count s \<le> MAX_REFERRAL_COUNT \<and>
      list_all (\<lambda>r. r \<le> OUTBOUND_MSG_RETRY) (dp_retries s) \<and>
      (if state s \<in> {INIT_REQUEST_STATE, INIT_REQUEST_2_STATE, INIT_REQUEST_3_STATE} then
         outbound_sent s \<le> OUTBOUND_MSG_RETRY * D * (query_restart_count s + referral_count s)
       else if state s \<in> {QUERYTARGETS_STATE, QUERY_RESP_STATE} then
         outbound_sent s + sum_list (dp_retries s)
           + OUTBOUND_MSG_RETRY * (D - length (dp_retries s))
         \<le> OUTBOUND_MSG_RETRY * D * (query_restart_count s + referral_count s + 1)
       else
         outbound_sent s
         \<le> OUTBOUND_MSG_RETRY * D * (query_restart_count s + referral_count s + 1)))"


section \<open>Concrete caches, replies and RRsets\<close>

text \<open>
  The name \<open>example.com.\<close> in wire format, a hash function, and two message caches of
  one table each: one with a reply of no RRsets for \<open>example.com. A\<close> that expires at
  100, one with a CNAME reply for \<open>example.com.\<close> whose RRset is at address 1.
\<close>

definition ex_qname:: dname where
  "ex_qname = [7, 0x65, 0x78, 0x61, 0x6d, 0x70, 0x6c, 0x65, 3, 0x63, 0x6f, 0x6d, 0]"

definition ex_hash :: "query_info \<Rightarrow> hashvalue_t" where
  "ex_hash q = ucast (qtype q) + 7 * of_nat (length (qname q))"

definition ex_sizefunc :: "(query_info, addr reply_info) lruhash_entry \<Rightarrow> nat" where
  "ex_sizefunc e = length (qname (e_key e)) + length (rrsets (e_data e))"

definition ex_key :: query_info where
  "ex_key = \<lparr>qname = ex_qname, qtype = LDNS_RR_TYPE_A, qclass = 1\<rparr>"

definition ex_reply :: "addr reply_info" where
  "ex_reply = \<lparr>rep_flags = BIT_QR, rep_qdcount = 1, rep_ttl = 100,
     an_numrrsets = 0, ns_numrrsets = 0,
     ar_numrrsets = 0, rrsets = [], ref = []\<rparr>"

definition ex_entry :: "(query_info, addr reply_info) lruhash_entry" where
  "ex_entry = \<lparr>e_hash = ex_hash ex_key, e_key = ex_key, e_data = ex_reply\<rparr>"

definition null_rrset :: ub_packed_rrset_key where
  "null_rrset = \<lparr>k_hash = 0, k_dname = [0], k_type = 0, k_class = 0, k_flags = 0, k_id = 0,
     k_data = \<lparr>d_ttl = 0, d_count = 0, d_rrsig_count = 0, d_trust = rrset_trust_add_noAA,
       rr_ttl = [], rr_data = []\<rparr>\<rparr>"

definition ex_env :: module_env where
  "ex_env = \<lparr>msg_cache = \<lparr>sl_mask = 0, sl_shift = 0,
       sl_array = [\<lparr>lru_list = [ex_entry], space_used = 13, space_max = 64,
                    sizefunc = ex_sizefunc\<rparr>]\<rparr>,
     rrset_heap = (\<lambda>a. null_rrset), rrset_lru = []\<rparr>"

definition ex_cname_rrset :: ub_packed_rrset_key where
  "ex_cname_rrset = \<lparr>k_hash = 77, k_dname = ex_qname, k_type = LDNS_RR_TYPE_CNAME, k_class = 1,
     k_flags = 0, k_id = 5,
     k_data = \<lparr>d_ttl = 300, d_count = 1, d_rrsig_count = 1, d_trust = rrset_trust_ans_AA,
       rr_ttl = [300, 400], rr_data = [[0, 3, 1, 0x61, 0], [0, 1, 9]]\<rparr>\<rparr>"

definition ex_cname_key :: query_info where
  "ex_cname_key = \<lparr>qname = ex_qname, qtype = LDNS_RR_TYPE_CNAME, qclass = 1\<rparr>"

definition ex_cname_reply :: "addr reply_info" where
  "ex_cname_reply = \<lparr>rep_flags = BIT_QR, rep_qdcount = 1, rep_ttl = 300,
     an_numrrsets = 1, ns_numrrsets = 0,
     ar_numrrsets = 0, rrsets = [1], ref = [\<lparr>ref_key = 1, ref_id = 5\<rparr>]\<rparr>"

definition ex_cname_env :: module_env where
  "ex_cname_env = \<lparr>msg_cache = \<lparr>sl_mask = 0, sl_shift = 0,
       sl_array = [\<lparr>lru_list = [\<lparr>e_hash = ex_hash ex_cname_key, e_key = ex_cname_key,
                                   e_data = ex_cname_reply\<rparr>],
                    space_used = 14, space_max = 64, sizefunc = ex_sizefunc\<rparr>]\<rparr>,
     rrset_heap = (\<lambda>a. null_rrset)(1 := ex_cname_rrset), rrset_lru = [1]\<rparr>"

text \<open>
  A fresh A RRset for \<open>example.com.\<close> at address 2, with relative TTLs as parsed from
  the wire, a reply that refers to it, and the same reply with TTL 0. The copy of the
  CNAME RRset that a lookup at time 100 makes, and the message built from it.
\<close>

definition ex_new_rrset :: ub_packed_rrset_key where
  "ex_new_rrset = \<lparr>k_hash = 78, k_dname = ex_qname, k_type = LDNS_RR_TYPE_A, k_class = 1,
     k_flags = 0, k_id = 9,
     k_data = \<lparr>d_ttl = 300, d_count = 2, d_rrsig_count = 1, d_trust = rrset_trust_ans_AA,
       rr_ttl = [300, 300, 300], rr_data = [[0, 4, 192, 0, 2, 1], [0, 4, 192, 0, 2, 2], [0, 1, 9]]\<rparr>\<rparr>"

definition ex_store_env :: module_env where
  "ex_store_env = ex_cname_env\<lparr>rrset_heap := (rrset_heap ex_cname_env)(2 := ex_new_rrset)\<rparr>"

definition ex_store_reply :: "addr reply_info" where
  "ex_store_reply = \<lparr>rep_flags = BIT_QR, rep_qdcount = 1, rep_ttl = 300,
     an_numrrsets = 1, ns_numrrsets = 0, ar_numrrsets = 0, rrsets = [2], ref = []\<rparr>"

definition ex_zero_reply :: "addr reply_info" where
  "ex_zero_reply = ex_store_reply\<lparr>rep_ttl := 0\<rparr>"








text \<open>
  An RRset cache that holds the NS RRsets of \<open>com.\<close> (address 4) and of the root
  (address 5).
\<close>

definition ex_com :: dname where
  "ex_com = [3, 0x63, 0x6f, 0x6d, 0]"

definition ex_ns_com :: ub_packed_rrset_key where
  "ex_ns_com = \<lparr>k_hash = 79, k_dname = ex_com, k_type = LDNS_RR_TYPE_NS, k_class = 1,
     k_flags = 0, k_id = 11,
     k_data = \<lparr>d_ttl = 5000, d_count = 1, d_rrsig_count = 0, d_trust = rrset_trust_auth,
       rr_ttl = [5000], rr_data = [[0, 7, 1, 0x61, 3, 0x6e, 0x69, 0x63, 0]]\<rparr>\<rparr>"

definition ex_ns_root :: ub_packed_rrset_key where
  "ex_ns_root = \<lparr>k_hash = 80, k_dname = [0], k_type = LDNS_RR_TYPE_NS, k_class = 1,
     k_flags = 0, k_id = 12,
     k_data = \<lparr>d_ttl = 9000, d_count = 1, d_rrsig_count = 0, d_trust = rrset_trust_auth,
       rr_ttl = [9000], rr_data = [[0, 3, 1, 0x61, 0]]\<rparr>\<rparr>"

definition ex_deleg_env :: module_env where
  "ex_deleg_env = ex_env\<lparr>rrset_heap := (\<lambda>a. null_rrset)(4 := ex_ns_com, 5 := ex_ns_root),
                         rrset_lru := [5, 4]\<rparr>"

text \<open>A validator environment in permissive mode, with a bogus TTL of 60 seconds.\<close>

definition ex_val_env :: val_env where
  "ex_val_env = \<lparr>date_override = 0, ve_bogus_ttl = 60, clean_additional = True,
     permissive_mode = True, nsec3_keysize = [1024, 2048, 4096],
     nsec3_maxiter = [150, 500, 2500]\<rparr>"

text \<open>
  The message cache of \<open>ex_env\<close> with a budget of 20 for its table: it holds the reply
  for \<open>example.com. A\<close>, of size 13.
\<close>

definition ex_small_cache :: "(query_info, addr reply_info) slabhash" where
  "ex_small_cache = \<lparr>sl_mask = 0, sl_shift = 0,
     sl_array = [\<lparr>lru_list = [ex_entry], space_used = 13, space_max = 20,
                  sizefunc = ex_sizefunc\<rparr>]\<rparr>"

text \<open>The entry of the message cache for the CNAME reply.\<close>

definition ex_cname_entry :: "(query_info, addr reply_info) lruhash_entry" where
  "ex_cname_entry = \<lparr>e_hash = ex_hash ex_cname_key, e_key = ex_cname_key, e_data = ex_cname_reply\<rparr>"

text \<open>
  A table with a budget of 30 that holds two entries: the reply for \<open>example.com. A\<close>,
  of size 13, and behind it in the LRU a reply for \<open>com. NS\<close>, of size 5.
\<close>

definition ex_com_key :: query_info where
  "ex_com_key = \<lparr>qname = [3, 0x63, 0x6f, 0x6d, 0], qtype = LDNS_RR_TYPE_NS, qclass = 1\<rparr>"

definition ex_com_entry :: "(query_info, addr reply_info) lruhash_entry" where
  "ex_com_entry = \<lparr>e_hash = ex_hash ex_com_key, e_key = ex_com_key, e_data = ex_reply\<rparr>"

definition ex_two_cache :: "(query_info, addr reply_info) slabhash" where
  "ex_two_cache = \<lparr>sl_mask = 0, sl_shift = 0,
     sl_array = [\<lparr>lru_list = [ex_entry, ex_com_entry], space_used = 18, space_max = 30,
                  sizefunc = ex_sizefunc\<rparr>]\<rparr>"

text \<open>
  A query that meets a chain of CNAMEs: every round finds a delegation point with one
  target, sends one outbound query and gets a CNAME back. Nine rounds.
\<close>

definition ex_cname_round :: "iter_event list" where
  "ex_cname_round = [Delegation 1, Pass, Pass, Select 0, Reply RESPONSE_CNAME]"

definition ex_cname_chain :: "iter_event list" where
  "ex_cname_chain = concat (replicate 9 ex_cname_round)"

text \<open>
  A query that is referred on and on: it starts at a delegation point with one target,
  and every outbound query gets a referral to another such delegation point. Thirty-one
  referrals.
\<close>

definition ex_referral_chain :: "iter_event list" where
  "ex_referral_chain =
     [Delegation 1, Pass, Pass] @ concat (replicate 31 [Select 0, Reply (RESPONSE_REFERRAL 1)])"


section \<open>Properties\<close>

lemma tomsg_expired: "now > rep_ttl r \<Longrightarrow> tomsg env e r region now = (None, region, env)"
  by (simp add: tomsg_def)

lemma find_remove1_other: "\<not> P e \<Longrightarrow> find P (remove1 e l) = find P l"
  by (induction l) auto

lemma find_Some_holds: "find P l = Some e \<Longrightarrow> P e \<and> e \<in> set l"
  by (induction l) (auto split: if_splits)

lemma find_touch:
  assumes "find (entry_matches h0 k0) l = Some e"
  shows "find (entry_matches h k) (e # remove1 e l) = find (entry_matches h k) l"
proof (cases "entry_matches h k e")
  case False
  then show ?thesis by (simp add: find_remove1_other)
next
  case True
  from assms have "entry_matches h0 k0 e" by (simp add: find_Some_holds)
  with True have "h = h0" "k = k0" by (auto simp: entry_matches_def)
  with assms True show ?thesis by simp
qed

lemma lruhash_lookup_touch:
  "fst (lruhash_lookup (snd (lruhash_lookup t h0 k0)) h k) = fst (lruhash_lookup t h k)"
proof (cases "find (entry_matches h0 k0) (lru_list t)")
  case None
  then show ?thesis by (simp add: lruhash_lookup_def)
next
  case (Some e)
  from find_touch[OF Some, of h k] Some show ?thesis
    by (simp add: lruhash_lookup_def split: option.splits)
qed

lemma fst_slabhash_lookup:
  "fst (slabhash_lookup sl h k) =
     (if slab_idx sl h < length (sl_array sl)
      then fst (lruhash_lookup (sl_array sl ! slab_idx sl h) h k) else None)"
  by (simp add: slabhash_lookup_def Let_def split: prod.splits)

lemma slabhash_lookup_array:
  "sl_array (snd (slabhash_lookup sl h k)) =
     (if slab_idx sl h < length (sl_array sl)
      then (sl_array sl)[slab_idx sl h := snd (lruhash_lookup (sl_array sl ! slab_idx sl h) h k)]
      else sl_array sl)"
  by (simp add: slabhash_lookup_def Let_def split: prod.splits)

lemma slabhash_lookup_idx: "slab_idx (snd (slabhash_lookup sl h0 k0)) h = slab_idx sl h"
  by (simp add: slabhash_lookup_def slab_idx_def Let_def split: prod.splits)

lemma slabhash_remove_array:
  "sl_array (slabhash_remove sl h k) =
     (if slab_idx sl h < length (sl_array sl)
      then (sl_array sl)[slab_idx sl h := lruhash_remove (sl_array sl ! slab_idx sl h) h k]
      else sl_array sl)"
  by (simp add: slabhash_remove_def Let_def)

lemma slabhash_remove_idx: "slab_idx (slabhash_remove sl h0 k0) h = slab_idx sl h"
  by (simp add: slabhash_remove_def slab_idx_def Let_def)

lemma slabhash_lookup_touch:
  "fst (slabhash_lookup (snd (slabhash_lookup sl h0 k0)) h k) = fst (slabhash_lookup sl h k)"
  by (simp add: fst_slabhash_lookup slabhash_lookup_array slabhash_lookup_idx
      nth_list_update lruhash_lookup_touch)

lemma find_remove1_same:
  "distinct (map f l) \<Longrightarrow> find (\<lambda>x. f x = v) l = Some e \<Longrightarrow> find (\<lambda>x. f x = v) (remove1 e l) = None"
proof (induction l)
  case Nil then show ?case by simp
next
  case (Cons a l)
  show ?case
  proof (cases "f a = v")
    case True
    with Cons.prems have ae: "a = e" by simp
    from Cons.prems(1) have "f a \<notin> f ` set l" by simp
    with True have "\<forall>x\<in>set l. f x \<noteq> v" by blast
    then have "find (\<lambda>x. f x = v) l = None" by (simp add: find_None_iff)
    with ae show ?thesis by simp
  next
    case False
    with Cons show ?thesis by (auto dest: find_Some_holds)
  qed
qed

lemma entry_matches_alt: "entry_matches h k = (\<lambda>e. (e_hash e, e_key e) = (h, k))"
  by (auto simp: entry_matches_def fun_eq_iff)

lemma lruhash_lookup_remove:
  assumes "lruhash_distinct t"
  shows "fst (lruhash_lookup (lruhash_remove t h0 k0) h k) =
         (if h = h0 \<and> k = k0 then None else fst (lruhash_lookup t h k))"
proof (cases "find (entry_matches h0 k0) (lru_list t)")
  case None
  then show ?thesis by (auto simp: lruhash_lookup_def lruhash_remove_def)
next
  case (Some e)
  show ?thesis
  proof (cases "h = h0 \<and> k = k0")
    case True
    from assms Some have "find (entry_matches h0 k0) (remove1 e (lru_list t)) = None"
      unfolding entry_matches_alt lruhash_distinct_def by (rule find_remove1_same)
    with True Some show ?thesis by (simp add: lruhash_lookup_def lruhash_remove_def)
  next
    case False
    from Some have "entry_matches h0 k0 e" by (simp add: find_Some_holds)
    with False have "\<not> entry_matches h k e" by (auto simp: entry_matches_def)
    then have "find (entry_matches h k) (remove1 e (lru_list t)) = find (entry_matches h k) (lru_list t)"
      by (rule find_remove1_other)
    with False Some show ?thesis
      by (auto simp: lruhash_lookup_def lruhash_remove_def split: option.splits)
  qed
qed

lemma slabhash_lookup_remove:
  assumes "slabhash_distinct sl"
  shows "fst (slabhash_lookup (slabhash_remove sl h0 k0) h k) =
         (if h = h0 \<and> k = k0 then None else fst (slabhash_lookup sl h k))"
proof -
  have d: "i < length (sl_array sl) \<Longrightarrow> lruhash_distinct (sl_array sl ! i)" for i
    using assms by (simp add: slabhash_distinct_def list_all_length)
  show ?thesis
  proof (cases "slab_idx sl h < length (sl_array sl)")
    case False
    then show ?thesis
      by (auto simp: fst_slabhash_lookup slabhash_remove_array slabhash_remove_idx)
  next
    case True
    show ?thesis
    proof (cases "slab_idx sl h0 = slab_idx sl h")
      case same: True
      have "fst (slabhash_lookup (slabhash_remove sl h0 k0) h k) =
            fst (lruhash_lookup (lruhash_remove (sl_array sl ! slab_idx sl h) h0 k0) h k)"
        unfolding fst_slabhash_lookup slabhash_remove_array slabhash_remove_idx same
        using True by simp
      also have "\<dots> = (if h = h0 \<and> k = k0 then None
                         else fst (lruhash_lookup (sl_array sl ! slab_idx sl h) h k))"
        by (rule lruhash_lookup_remove[OF d[OF True]])
      also have "\<dots> = (if h = h0 \<and> k = k0 then None else fst (slabhash_lookup sl h k))"
        unfolding fst_slabhash_lookup using True by simp
      finally show ?thesis .
    next
      case False
      then have ne: "h \<noteq> h0" by auto
      with False True show ?thesis
        by (simp add: fst_slabhash_lookup slabhash_remove_array slabhash_remove_idx)
    qed
  qed
qed

lemma tomsg_env:
  "msg_cache (snd (snd (tomsg env e r region now))) = msg_cache env \<and>
   rrset_heap (snd (snd (tomsg env e r region now))) = rrset_heap env"
  by (simp add: tomsg_def Let_def split: prod.splits option.splits)

lemma tomsg_cong:
  "rrset_heap envA = rrset_heap envB \<Longrightarrow>
   fst (tomsg envA e r region now) = fst (tomsg envB e r region now) \<and>
   fst (snd (tomsg envA e r region now)) = fst (snd (tomsg envB e r region now))"
  by (simp add: tomsg_def Let_def split: prod.splits option.splits)

lemma lookup_attempt_env:
  "rrset_heap (snd (snd (lookup_attempt qh env k region now))) = rrset_heap env \<and>
   fst (slabhash_lookup (msg_cache (snd (snd (lookup_attempt qh env k region now)))) h' k') =
     fst (slabhash_lookup (msg_cache env) h' k')"
proof -
  obtain e mc where l: "slabhash_lookup (msg_cache env) (qh k) k = (e, mc)"
    by (cases "slabhash_lookup (msg_cache env) (qh k) k")
  then have mc: "mc = snd (slabhash_lookup (msg_cache env) (qh k) k)" by simp
  have t: "fst (slabhash_lookup mc h' k') = fst (slabhash_lookup (msg_cache env) h' k')"
    unfolding mc by (rule slabhash_lookup_touch)
  show ?thesis
  proof (cases e)
    case None
    with l t show ?thesis by (simp add: lookup_attempt_def)
  next
    case (Some en)
    with l t tomsg_env[of "env\<lparr>msg_cache := mc\<rparr>" "e_key en" "e_data en" region now]
    show ?thesis by (simp add: lookup_attempt_def)
  qed
qed

lemma lookup_attempt_cong:
  assumes heap: "rrset_heap envA = rrset_heap envB"
    and lv: "live now (fst (slabhash_lookup (msg_cache envA) (qh k) k)) =
             live now (fst (slabhash_lookup (msg_cache envB) (qh k) k))"
  shows "fst (lookup_attempt qh envA k region now) = fst (lookup_attempt qh envB k region now) \<and>
         fst (snd (lookup_attempt qh envA k region now)) =
         fst (snd (lookup_attempt qh envB k region now))"
proof -
  have dead: "fst (slabhash_lookup (msg_cache env) (qh k) k) = eo \<Longrightarrow> live now eo = None \<Longrightarrow>
      fst (lookup_attempt qh env k region now) = None \<and>
      fst (snd (lookup_attempt qh env k region now)) = region" for env eo
    by (cases "slabhash_lookup (msg_cache env) (qh k) k")
       (auto simp: lookup_attempt_def live_def tomsg_expired split: option.splits if_splits)
  have alive: "fst (slabhash_lookup (msg_cache env) (qh k) k) = eo \<Longrightarrow> live now eo = Some en \<Longrightarrow>
      fst (lookup_attempt qh env k region now) =
        fst (tomsg env (e_key en) (e_data en) region now) \<and>
      fst (snd (lookup_attempt qh env k region now)) =
        fst (snd (tomsg env (e_key en) (e_data en) region now))" for env eo en
    using tomsg_cong[of "env\<lparr>msg_cache := snd (slabhash_lookup (msg_cache env) (qh k) k)\<rparr>" env
                      "e_key en" "e_data en" region now]
    by (cases "slabhash_lookup (msg_cache env) (qh k) k")
       (auto simp: lookup_attempt_def live_def split: option.splits if_splits)
  show ?thesis
  proof (cases "live now (fst (slabhash_lookup (msg_cache envA) (qh k) k))")
    case None
    with lv dead[of envA, OF refl] dead[of envB, OF refl] show ?thesis by simp
  next
    case (Some en)
    with lv alive[of envA _ en, OF refl] alive[of envB _ en, OF refl]
      tomsg_cong[OF heap, of "e_key en" "e_data en" region now]
    show ?thesis by simp
  qed
qed

lemma dns_cache_lookup_cong:
  assumes heap: "rrset_heap envA = rrset_heap envB"
    and lv: "\<And>k. live now (fst (slabhash_lookup (msg_cache envA) (qh k) k)) =
             live now (fst (slabhash_lookup (msg_cache envB) (qh k) k))"
  shows "fst (dns_cache_lookup qh envA qn qt qc region now) =
         fst (dns_cache_lookup qh envB qn qt qc region now) \<and>
         fst (snd (dns_cache_lookup qh envA qn qt qc region now)) =
         fst (snd (dns_cache_lookup qh envB qn qt qc region now))"
proof -
  let ?k = "\<lparr>qname = qn, qtype = qt, qclass = qc\<rparr>"
  let ?k2 = "\<lparr>qname = qn, qtype = LDNS_RR_TYPE_CNAME, qclass = qc\<rparr>"
  obtain mA rA eA where a: "lookup_attempt qh envA ?k region now = (mA, rA, eA)"
    by (cases "lookup_attempt qh envA ?k region now") auto
  obtain mB rB eB where b: "lookup_attempt qh envB ?k region now = (mB, rB, eB)"
    by (cases "lookup_attempt qh envB ?k region now") auto
  from lookup_attempt_cong[where qh=qh and k="?k" and region=region, OF heap lv[of ?k]] a b have m: "mA = mB" "rA = rB" by simp_all
  from lookup_attempt_env[of qh envA ?k region now] a
  have eA: "rrset_heap eA = rrset_heap envA"
    "\<And>h' k'. fst (slabhash_lookup (msg_cache eA) h' k') = fst (slabhash_lookup (msg_cache envA) h' k')"
    by simp_all
  from lookup_attempt_env[of qh envB ?k region now] b
  have eB: "rrset_heap eB = rrset_heap envB"
    "\<And>h' k'. fst (slabhash_lookup (msg_cache eB) h' k') = fst (slabhash_lookup (msg_cache envB) h' k')"
    by simp_all
  have heap2: "rrset_heap eA = rrset_heap eB" using eA eB heap by simp
  have lv2: "live now (fst (slabhash_lookup (msg_cache eA) (qh ?k2) ?k2)) =
             live now (fst (slabhash_lookup (msg_cache eB) (qh ?k2) ?k2))"
    using eA(2) eB(2) lv[of ?k2] by simp
  from lookup_attempt_cong[where qh=qh and k="?k2" and region=rA, OF heap2 lv2] m a b
  show ?thesis
    by (cases mB) (auto simp: dns_cache_lookup_def split: prod.splits option.splits)
qed

lemma tomsg_cache_cong:
  "rrset_heap envA = rrset_heap envB \<Longrightarrow> rrset_lru envA = rrset_lru envB \<Longrightarrow>
   rrset_lru (snd (snd (tomsg envA e r region now))) =
   rrset_lru (snd (snd (tomsg envB e r region now)))"
  by (simp add: tomsg_def Let_def split: prod.splits option.splits)

lemma lookup_attempt_cache_cong:
  assumes heap: "rrset_heap envA = rrset_heap envB"
    and lru: "rrset_lru envA = rrset_lru envB"
    and lv: "live now (fst (slabhash_lookup (msg_cache envA) (qh k) k)) =
             live now (fst (slabhash_lookup (msg_cache envB) (qh k) k))"
  shows "rrset_lru (snd (snd (lookup_attempt qh envA k region now))) =
         rrset_lru (snd (snd (lookup_attempt qh envB k region now)))"
proof -
  have dead: "fst (slabhash_lookup (msg_cache env) (qh k) k) = eo \<Longrightarrow> live now eo = None \<Longrightarrow>
      rrset_lru (snd (snd (lookup_attempt qh env k region now))) = rrset_lru env" for env eo
    by (cases "slabhash_lookup (msg_cache env) (qh k) k")
       (auto simp: lookup_attempt_def live_def tomsg_expired split: option.splits if_splits)
  have alive: "fst (slabhash_lookup (msg_cache env) (qh k) k) = eo \<Longrightarrow> live now eo = Some en \<Longrightarrow>
      rrset_lru (snd (snd (lookup_attempt qh env k region now))) =
        rrset_lru (snd (snd (tomsg env (e_key en) (e_data en) region now)))" for env eo en
    using tomsg_cache_cong[of "env\<lparr>msg_cache := snd (slabhash_lookup (msg_cache env) (qh k) k)\<rparr>" env
                      "e_key en" "e_data en" region now]
    by (cases "slabhash_lookup (msg_cache env) (qh k) k")
       (auto simp: lookup_attempt_def live_def split: option.splits if_splits)
  show ?thesis
  proof (cases "live now (fst (slabhash_lookup (msg_cache envA) (qh k) k))")
    case None
    with lv dead[of envA, OF refl] dead[of envB, OF refl] lru show ?thesis by simp
  next
    case (Some en)
    with lv alive[of envA _ en, OF refl] alive[of envB _ en, OF refl]
      tomsg_cache_cong[OF heap lru, of "e_key en" "e_data en" region now]
    show ?thesis by simp
  qed
qed

lemma dns_cache_lookup_cache_cong:
  assumes heap: "rrset_heap envA = rrset_heap envB"
    and lru: "rrset_lru envA = rrset_lru envB"
    and lv: "\<And>k. live now (fst (slabhash_lookup (msg_cache envA) (qh k) k)) =
             live now (fst (slabhash_lookup (msg_cache envB) (qh k) k))"
  shows "rrset_lru (snd (snd (dns_cache_lookup qh envA qn qt qc region now))) =
         rrset_lru (snd (snd (dns_cache_lookup qh envB qn qt qc region now)))"
proof -
  let ?k = "\<lparr>qname = qn, qtype = qt, qclass = qc\<rparr>"
  let ?k2 = "\<lparr>qname = qn, qtype = LDNS_RR_TYPE_CNAME, qclass = qc\<rparr>"
  obtain mA rA eA where a: "lookup_attempt qh envA ?k region now = (mA, rA, eA)"
    by (cases "lookup_attempt qh envA ?k region now") auto
  obtain mB rB eB where b: "lookup_attempt qh envB ?k region now = (mB, rB, eB)"
    by (cases "lookup_attempt qh envB ?k region now") auto
  from lookup_attempt_cong[where qh=qh and k="?k" and region=region, OF heap lv[of ?k]] a b
  have m: "mA = mB" "rA = rB" by simp_all
  from lookup_attempt_cache_cong[where qh=qh and k="?k" and region=region, OF heap lru lv[of ?k]] a b
  have lru2: "rrset_lru eA = rrset_lru eB" by simp
  from lookup_attempt_env[of qh envA ?k region now] a
  have eA: "rrset_heap eA = rrset_heap envA"
    "\<And>h' k'. fst (slabhash_lookup (msg_cache eA) h' k') = fst (slabhash_lookup (msg_cache envA) h' k')"
    by simp_all
  from lookup_attempt_env[of qh envB ?k region now] b
  have eB: "rrset_heap eB = rrset_heap envB"
    "\<And>h' k'. fst (slabhash_lookup (msg_cache eB) h' k') = fst (slabhash_lookup (msg_cache envB) h' k')"
    by simp_all
  have heap2: "rrset_heap eA = rrset_heap eB" using eA eB heap by simp
  have lv2: "live now (fst (slabhash_lookup (msg_cache eA) (qh ?k2) ?k2)) =
             live now (fst (slabhash_lookup (msg_cache eB) (qh ?k2) ?k2))"
    using eA(2) eB(2) lv[of ?k2] by simp
  from lookup_attempt_cache_cong[where qh=qh and k="?k2" and region=rA, OF heap2 lru2 lv2] m a b lru2
  show ?thesis
    by (cases mB) (auto simp: dns_cache_lookup_def split: prod.splits option.splits)
qed

lemma dns_cache_lookup_env:
  "rrset_heap (snd (snd (dns_cache_lookup qh env qn qt qc region now))) = rrset_heap env \<and>
   fst (slabhash_lookup (msg_cache (snd (snd (dns_cache_lookup qh env qn qt qc region now)))) h' k') =
     fst (slabhash_lookup (msg_cache env) h' k')"
proof -
  let ?k = "\<lparr>qname = qn, qtype = qt, qclass = qc\<rparr>"
  let ?k2 = "\<lparr>qname = qn, qtype = LDNS_RR_TYPE_CNAME, qclass = qc\<rparr>"
  obtain m r1 e1 where a: "lookup_attempt qh env ?k region now = (m, r1, e1)"
    by (cases "lookup_attempt qh env ?k region now") auto
  obtain m2 r2 e2 where b: "lookup_attempt qh e1 ?k2 r1 now = (m2, r2, e2)"
    by (cases "lookup_attempt qh e1 ?k2 r1 now") auto
  from lookup_attempt_env[of qh env ?k region now h' k'] a
  have 1: "rrset_heap e1 = rrset_heap env"
    "fst (slabhash_lookup (msg_cache e1) h' k') = fst (slabhash_lookup (msg_cache env) h' k')"
    by simp_all
  from lookup_attempt_env[of qh e1 ?k2 r1 now h' k'] b
  have 2: "rrset_heap e2 = rrset_heap e1"
    "fst (slabhash_lookup (msg_cache e2) h' k') = fst (slabhash_lookup (msg_cache e1) h' k')"
    by simp_all
  from a b 1 2 show ?thesis
    by (cases m; cases m2) (simp_all add: dns_cache_lookup_def)
qed

lemma copy_rrset_region:
  "3 \<le> region \<Longrightarrow> \<exists>ck. copy_rrset key region now = (Some ck, region - 3)"
  by (simp add: copy_rrset_def region_alloc_def Let_def split: prod.splits)

lemma tomsg_copy_region:
  "3 * length as \<le> region \<Longrightarrow>
   \<exists>cs. tomsg_copy h as region now = (Some cs, region - 3 * length as)"
proof (induction as arbitrary: region)
  case Nil
  then show ?case by simp
next
  case (Cons a as)
  then have 3: "3 \<le> region" and r: "3 * length as \<le> region - 3" by simp_all
  from copy_rrset_region[OF 3, of "h a" now] obtain ck where
    c: "copy_rrset (h a) region now = (Some ck, region - 3)" by blast
  from Cons.IH[OF r] obtain cs where
    t: "tomsg_copy h as (region - 3) now = (Some cs, region - 3 - 3 * length as)" by blast
  from c t show ?case by simp
qed

lemma tomsg_served:
  assumes "now \<le> rep_ttl r"
    and "rrset_array_lock (rrset_heap env) (ref r) now"
    and "4 + 3 * length (rrsets r) \<le> region"
  shows "\<exists>msg env'. tomsg env e r region now = (Some msg, region - (4 + 3 * length (rrsets r)), env')"
proof -
  from assms(3) have "3 * length (rrsets r) \<le> region - 4" by simp
  from tomsg_copy_region[OF this, of "rrset_heap env" now] obtain cs where
    "tomsg_copy (rrset_heap env) (rrsets r) (region - 4) now =
       (Some cs, region - 4 - 3 * length (rrsets r))" by blast
  moreover have "region - Suc 0 - Suc 0 - Suc 0 - Suc 0 = region - 4" by simp
  ultimately show ?thesis using assms
    by (simp add: tomsg_def region_alloc_def Let_def)
qed

lemma tomsg_copy_length:
  "tomsg_copy h as region now = (Some cs, r') \<Longrightarrow> length cs = length as"
  by (induction as arbitrary: region cs r') (auto split: prod.splits option.splits)

lemma tomsg_Some:
  assumes "tomsg env e r region now = (Some msg, r', env')"
  shows "msg_qinfo msg = e \<and> now \<le> rep_ttl r \<and> rep_ttl (msg_rep msg) = rep_ttl r \<and>
     rep_flags (msg_rep msg) = rep_flags r \<and>
     an_numrrsets (msg_rep msg) = an_numrrsets r \<and> ns_numrrsets (msg_rep msg) = ns_numrrsets r \<and>
     ar_numrrsets (msg_rep msg) = ar_numrrsets r \<and>
     length (rrsets (msg_rep msg)) = length (rrsets r) \<and>
     rrset_array_lock (rrset_heap env) (ref r) now"
  using assms
  by (auto simp: tomsg_def Let_def tomsg_copy_length split: prod.splits option.splits if_splits)

text \<open>
  Claim C1, as the code has it: at a lookup at time \<open>now\<close>, a cached reply whose absolute
  TTL is strictly below \<open>now\<close> is treated as absent. \<open>tomsg\<close> builds no message from it,
  allocates nothing and leaves the caches as they are, and \<open>dns_cache_lookup\<close> returns the
  message, and leaves the region and the RRset cache, that it returns and leaves when
  that entry has been removed from the message cache. The message cache itself is not as
  after a removal: the expired entry stays in it, and the attempt that finds it has no
  other effect than that \<open>slabhash_lookup\<close> moves it to the front of its LRU list. A reply whose TTL equals \<open>now\<close> is not rejected for its
  TTL: when its RRsets can be locked and the region serves the allocations (four, and
  three for every RRset), the lookup for its key converts and returns it.
\<close>

theorem dns_cache_lookup_expired_as_miss:
  assumes d: "slabhash_distinct (msg_cache env)"
    and f: "fst (slabhash_lookup (msg_cache env) (qh kx) kx) = Some en"
  shows "(rep_ttl (e_data en) < now \<longrightarrow>
      tomsg env (e_key en) (e_data en) region now = (None, region, env) \<and>
      lookup_attempt qh env kx region now =
        (None, region, env\<lparr>msg_cache := snd (slabhash_lookup (msg_cache env) (qh kx) kx)\<rparr>) \<and>
      lru_list (sl_array (snd (slabhash_lookup (msg_cache env) (qh kx) kx))
                  ! slab_idx (msg_cache env) (qh kx)) =
        en # remove1 en (lru_list (sl_array (msg_cache env) ! slab_idx (msg_cache env) (qh kx))) \<and>
      fst (dns_cache_lookup qh env qn qt qc region now) =
      fst (dns_cache_lookup qh (env\<lparr>msg_cache := slabhash_remove (msg_cache env) (qh kx) kx\<rparr>)
             qn qt qc region now) \<and>
      fst (snd (dns_cache_lookup qh env qn qt qc region now)) =
      fst (snd (dns_cache_lookup qh (env\<lparr>msg_cache := slabhash_remove (msg_cache env) (qh kx) kx\<rparr>)
             qn qt qc region now)) \<and>
      rrset_heap (snd (snd (dns_cache_lookup qh env qn qt qc region now))) =
      rrset_heap (snd (snd (dns_cache_lookup qh
             (env\<lparr>msg_cache := slabhash_remove (msg_cache env) (qh kx) kx\<rparr>) qn qt qc region now))) \<and>
      rrset_lru (snd (snd (dns_cache_lookup qh env qn qt qc region now))) =
      rrset_lru (snd (snd (dns_cache_lookup qh
             (env\<lparr>msg_cache := slabhash_remove (msg_cache env) (qh kx) kx\<rparr>) qn qt qc region now))) \<and>
      fst (slabhash_lookup (msg_cache (snd (snd (dns_cache_lookup qh env qn qt qc region now))))
             (qh kx) kx) = Some en) \<and>
    (rep_ttl (e_data en) = now \<and> kx = \<lparr>qname = qn, qtype = qt, qclass = qc\<rparr> \<and>
     rrset_array_lock (rrset_heap env) (ref (e_data en)) now \<and>
     4 + 3 * length (rrsets (e_data en)) \<le> region \<longrightarrow>
       (\<exists>msg. fst (dns_cache_lookup qh env qn qt qc region now) = Some msg \<and>
              msg_qinfo msg = e_key en \<and> rep_ttl (msg_rep msg) = now \<and>
              length (rrsets (msg_rep msg)) = length (rrsets (e_data en))))"
proof (intro conjI impI)
  let ?envB = "env\<lparr>msg_cache := slabhash_remove (msg_cache env) (qh kx) kx\<rparr>"
  assume x: "rep_ttl (e_data en) < now"
  have heap: "rrset_heap env = rrset_heap ?envB" by simp
  have lru: "rrset_lru env = rrset_lru ?envB" by simp
  have lv: "live now (fst (slabhash_lookup (msg_cache env) (qh k) k)) =
            live now (fst (slabhash_lookup (msg_cache ?envB) (qh k) k))" for k
  proof (cases "k = kx")
    case True
    with f x show ?thesis by (simp add: slabhash_lookup_remove[OF d] live_def)
  next
    case False
    then show ?thesis by (simp add: slabhash_lookup_remove[OF d])
  qed
  show "tomsg env (e_key en) (e_data en) region now = (None, region, env)"
    using tomsg_expired[OF x] .
  obtain mc where l: "slabhash_lookup (msg_cache env) (qh kx) kx = (Some en, mc)"
    using f by (cases "slabhash_lookup (msg_cache env) (qh kx) kx") simp
  with tomsg_expired[OF x]
  show "lookup_attempt qh env kx region now =
        (None, region, env\<lparr>msg_cache := snd (slabhash_lookup (msg_cache env) (qh kx) kx)\<rparr>)"
    by (simp add: lookup_attempt_def)
  from f show "lru_list (sl_array (snd (slabhash_lookup (msg_cache env) (qh kx) kx))
                  ! slab_idx (msg_cache env) (qh kx)) =
        en # remove1 en (lru_list (sl_array (msg_cache env) ! slab_idx (msg_cache env) (qh kx)))"
    by (auto simp: slabhash_lookup_def lruhash_lookup_def Let_def
        split: if_splits option.splits prod.splits)
  from dns_cache_lookup_cong[where qh=qh, OF heap lv]
  show "fst (dns_cache_lookup qh env qn qt qc region now) =
      fst (dns_cache_lookup qh ?envB qn qt qc region now)"
    and "fst (snd (dns_cache_lookup qh env qn qt qc region now)) =
      fst (snd (dns_cache_lookup qh ?envB qn qt qc region now))"
    by simp_all
  from dns_cache_lookup_env[of qh env qn qt qc region now] dns_cache_lookup_env[of qh ?envB qn qt qc region now]
  show "rrset_heap (snd (snd (dns_cache_lookup qh env qn qt qc region now))) =
      rrset_heap (snd (snd (dns_cache_lookup qh ?envB qn qt qc region now)))"
    by simp
  from dns_cache_lookup_cache_cong[where qh=qh, OF heap lru lv]
  show "rrset_lru (snd (snd (dns_cache_lookup qh env qn qt qc region now))) =
      rrset_lru (snd (snd (dns_cache_lookup qh ?envB qn qt qc region now)))" .
  from dns_cache_lookup_env[of qh env qn qt qc region now "qh kx" kx] f
  show "fst (slabhash_lookup (msg_cache (snd (snd (dns_cache_lookup qh env qn qt qc region now))))
             (qh kx) kx) = Some en" by simp
next
  assume b: "rep_ttl (e_data en) = now \<and> kx = \<lparr>qname = qn, qtype = qt, qclass = qc\<rparr> \<and>
     rrset_array_lock (rrset_heap env) (ref (e_data en)) now \<and>
     4 + 3 * length (rrsets (e_data en)) \<le> region"
  let ?k = "\<lparr>qname = qn, qtype = qt, qclass = qc\<rparr>"
  obtain eo mc where l: "slabhash_lookup (msg_cache env) (qh ?k) ?k = (eo, mc)"
    by (cases "slabhash_lookup (msg_cache env) (qh ?k) ?k")
  with f b have eo: "eo = Some en" by simp
  from b have "now \<le> rep_ttl (e_data en)"
    "rrset_array_lock (rrset_heap (env\<lparr>msg_cache := mc\<rparr>)) (ref (e_data en)) now"
    "4 + 3 * length (rrsets (e_data en)) \<le> region" by simp_all
  from tomsg_served[OF this, of "e_key en"] obtain msg env' where
    t: "tomsg (env\<lparr>msg_cache := mc\<rparr>) (e_key en) (e_data en) region now =
         (Some msg, region - (4 + 3 * length (rrsets (e_data en))), env')" by blast
  with l eo have "fst (dns_cache_lookup qh env qn qt qc region now) = Some msg"
    by (simp add: dns_cache_lookup_def lookup_attempt_def)
  with tomsg_Some[OF t] b
  show "\<exists>msg. fst (dns_cache_lookup qh env qn qt qc region now) = Some msg \<and>
              msg_qinfo msg = e_key en \<and> rep_ttl (msg_rep msg) = now \<and>
              length (rrsets (msg_rep msg)) = length (rrsets (e_data en))"
    by auto
qed

theorem dns_cache_lookup_expired_as_miss_witness:
  "slabhash_distinct (msg_cache ex_env) \<and>
   fst (slabhash_lookup (msg_cache ex_env) (ex_hash ex_key) ex_key) = Some ex_entry \<and>
   rep_ttl (e_data ex_entry) < 101 \<and>
   tomsg ex_env (e_key ex_entry) (e_data ex_entry) 4 101 = (None, 4, ex_env) \<and>
   fst (dns_cache_lookup ex_hash ex_env ex_qname LDNS_RR_TYPE_A 1 4 101) =
   fst (dns_cache_lookup ex_hash
          (ex_env\<lparr>msg_cache := slabhash_remove (msg_cache ex_env) (ex_hash ex_key) ex_key\<rparr>)
          ex_qname LDNS_RR_TYPE_A 1 4 101) \<and>
   fst (dns_cache_lookup ex_hash ex_env ex_qname LDNS_RR_TYPE_A 1 4 101) = None \<and>
   fst (slabhash_lookup
          (msg_cache (snd (snd (dns_cache_lookup ex_hash ex_env ex_qname LDNS_RR_TYPE_A 1 4 101))))
          (ex_hash ex_key) ex_key) = Some ex_entry \<and>
   rep_ttl (e_data ex_entry) = 100 \<and>
   ex_key = \<lparr>qname = ex_qname, qtype = LDNS_RR_TYPE_A, qclass = 1\<rparr> \<and>
   rrset_array_lock (rrset_heap ex_env) (ref (e_data ex_entry)) 100 \<and>
   4 + 3 * length (rrsets (e_data ex_entry)) \<le> (4::nat) \<and>
   fst (dns_cache_lookup ex_hash ex_env ex_qname LDNS_RR_TYPE_A 1 4 100) \<noteq> None"
proof -
  have d: "slabhash_distinct (msg_cache ex_env)"
    by (simp add: slabhash_distinct_def lruhash_distinct_def ex_env_def)
  have f: "fst (slabhash_lookup (msg_cache ex_env) (ex_hash ex_key) ex_key) = Some ex_entry"
    by (simp add: ex_env_def slabhash_lookup_def slab_idx_def lruhash_lookup_def
        entry_matches_def ex_entry_def)
  have x: "rep_ttl (e_data ex_entry) < 101"
    by (simp add: ex_entry_def ex_reply_def)
  have n: "fst (dns_cache_lookup ex_hash ex_env ex_qname LDNS_RR_TYPE_A 1 4 101) = None"
    by (simp add: ex_reply_def ex_env_def slabhash_lookup_def slab_idx_def lruhash_lookup_def
      entry_matches_def ex_entry_def dns_cache_lookup_def lookup_attempt_def ex_key_def
      tomsg_def Let_def ex_hash_def LDNS_RR_TYPE_A_def LDNS_RR_TYPE_CNAME_def)
  have t: "rep_ttl (e_data ex_entry) = 100" by (simp add: ex_entry_def ex_reply_def)
  have k: "ex_key = \<lparr>qname = ex_qname, qtype = LDNS_RR_TYPE_A, qclass = 1\<rparr>"
    by (simp add: ex_key_def)
  have lk: "rrset_array_lock (rrset_heap ex_env) (ref (e_data ex_entry)) 100"
    by (simp add: rrset_array_lock_def ex_entry_def ex_reply_def)
  have rg: "4 + 3 * length (rrsets (e_data ex_entry)) \<le> (4::nat)"
    by (simp add: ex_entry_def ex_reply_def)
  from dns_cache_lookup_expired_as_miss [where qh = ex_hash and kx = ex_key and region = 4
      and qn = ex_qname and qt = LDNS_RR_TYPE_A and qc = 1 and now = 101, OF d f]
    dns_cache_lookup_expired_as_miss [where qh = ex_hash and kx = ex_key and region = 4
      and qn = ex_qname and qt = LDNS_RR_TYPE_A and qc = 1 and now = 100, OF d f]
    d f x n t k lk rg
  show ?thesis by auto
qed

text \<open>
  Claim C1 as stated fails at TTL = \<open>now\<close>: the test in \<open>tomsg\<close> is \<open>now > r->ttl\<close>.
  The reply for \<open>example.com. A\<close> expires at 100; looked up at 100 it is converted and
  returned, although a lookup in the cache without it returns nothing.
\<close>

theorem dns_cache_lookup_ttl_now_counterexample:
  "rep_ttl ex_reply \<le> 100 \<and>
   fst (slabhash_lookup (msg_cache ex_env) (ex_hash ex_key) ex_key) = Some ex_entry \<and>
   e_data ex_entry = ex_reply \<and>
   fst (dns_cache_lookup ex_hash ex_env ex_qname LDNS_RR_TYPE_A 1 4 100) =
     Some \<lparr>msg_qinfo = ex_key, msg_rep = \<lparr>rep_flags = BIT_QR, rep_qdcount = 1, rep_ttl = 100,
       an_numrrsets = 0, ns_numrrsets = 0,
       ar_numrrsets = 0, rrsets = [], ref = []\<rparr>\<rparr> \<and>
   fst (dns_cache_lookup ex_hash
          (ex_env\<lparr>msg_cache := slabhash_remove (msg_cache ex_env) (ex_hash ex_key) ex_key\<rparr>)
          ex_qname LDNS_RR_TYPE_A 1 4 100) = None"
  by (simp add: ex_reply_def ex_env_def slabhash_lookup_def slab_idx_def lruhash_lookup_def
      entry_matches_def ex_entry_def dns_cache_lookup_def lookup_attempt_def ex_key_def
      tomsg_def region_alloc_def rrset_array_lock_def rrset_array_unlock_touch_def Let_def
      slabhash_remove_def lruhash_remove_def ex_hash_def LDNS_RR_TYPE_A_def
      LDNS_RR_TYPE_CNAME_def)

lemma lookup_attempt_Some:
  assumes "lookup_attempt qh env k region now = (Some msg, r', env')"
  shows "\<exists>en. fst (slabhash_lookup (msg_cache env) (qh k) k) = Some en \<and> e_key en = k \<and>
     msg_qinfo msg = k \<and> now \<le> rep_ttl (e_data en) \<and>
     rep_ttl (msg_rep msg) = rep_ttl (e_data en) \<and>
     rep_flags (msg_rep msg) = rep_flags (e_data en) \<and>
     an_numrrsets (msg_rep msg) = an_numrrsets (e_data en) \<and>
     ns_numrrsets (msg_rep msg) = ns_numrrsets (e_data en) \<and>
     ar_numrrsets (msg_rep msg) = ar_numrrsets (e_data en) \<and>
     length (rrsets (msg_rep msg)) = length (rrsets (e_data en))"
proof -
  obtain eo mc where l: "slabhash_lookup (msg_cache env) (qh k) k = (eo, mc)"
    by (cases "slabhash_lookup (msg_cache env) (qh k) k")
  with assms obtain en where en: "eo = Some en"
    and t: "tomsg (env\<lparr>msg_cache := mc\<rparr>) (e_key en) (e_data en) region now = (Some msg, r', env')"
    by (cases eo) (auto simp: lookup_attempt_def)
  from l en have "fst (lruhash_lookup (sl_array (msg_cache env) ! slab_idx (msg_cache env) (qh k)) (qh k) k) = Some en"
    by (auto simp: slabhash_lookup_def Let_def split: if_splits prod.splits)
  then have "entry_matches (qh k) k en"
    by (auto simp: lruhash_lookup_def split: option.splits dest: find_Some_holds)
  then have "e_key en = k" by (simp add: entry_matches_def)
  with tomsg_Some[OF t] l en show ?thesis by simp
qed

text \<open>
  Claim C10: when the attempt for (qname, qtype, qclass) gives no message, because the
  entry is missing, expired or does not convert, \<open>dns_cache_lookup\<close> looks up
  (qname, CNAME, qclass) in the message cache and returns what \<open>tomsg\<close> makes of that
  entry; it returns NULL only when this second attempt fails too. A message returned is
  the cached CNAME reply: it carries the CNAME key and the header of the cached entry.
\<close>

theorem dns_cache_lookup_cname_fallback:
  assumes "lookup_attempt qh env \<lparr>qname = qn, qtype = qt, qclass = qc\<rparr> region now = (None, r1, env1)"
  shows "dns_cache_lookup qh env qn qt qc region now =
           lookup_attempt qh env1 \<lparr>qname = qn, qtype = LDNS_RR_TYPE_CNAME, qclass = qc\<rparr> r1 now \<and>
         (fst (dns_cache_lookup qh env qn qt qc region now) = None \<longleftrightarrow>
            fst (lookup_attempt qh env1 \<lparr>qname = qn, qtype = LDNS_RR_TYPE_CNAME, qclass = qc\<rparr> r1 now) = None) \<and>
         (\<forall>msg. fst (dns_cache_lookup qh env qn qt qc region now) = Some msg \<longrightarrow>
            (\<exists>en. fst (slabhash_lookup (msg_cache env1)
                         (qh \<lparr>qname = qn, qtype = LDNS_RR_TYPE_CNAME, qclass = qc\<rparr>)
                         \<lparr>qname = qn, qtype = LDNS_RR_TYPE_CNAME, qclass = qc\<rparr>) = Some en \<and>
                  msg_qinfo msg = \<lparr>qname = qn, qtype = LDNS_RR_TYPE_CNAME, qclass = qc\<rparr> \<and>
                  now \<le> rep_ttl (e_data en) \<and>
                  rep_ttl (msg_rep msg) = rep_ttl (e_data en) \<and>
                  rep_flags (msg_rep msg) = rep_flags (e_data en) \<and>
                  length (rrsets (msg_rep msg)) = length (rrsets (e_data en))))"
proof -
  let ?k2 = "\<lparr>qname = qn, qtype = LDNS_RR_TYPE_CNAME, qclass = qc\<rparr>"
  have eq: "dns_cache_lookup qh env qn qt qc region now = lookup_attempt qh env1 ?k2 r1 now"
    using assms by (auto simp: dns_cache_lookup_def split: prod.splits option.splits)
  have "\<exists>en. fst (slabhash_lookup (msg_cache env1) (qh ?k2) ?k2) = Some en \<and>
                  msg_qinfo msg = ?k2 \<and> now \<le> rep_ttl (e_data en) \<and>
                  rep_ttl (msg_rep msg) = rep_ttl (e_data en) \<and>
                  rep_flags (msg_rep msg) = rep_flags (e_data en) \<and>
                  length (rrsets (msg_rep msg)) = length (rrsets (e_data en))"
    if "fst (lookup_attempt qh env1 ?k2 r1 now) = Some msg" for msg
  proof -
    from that obtain r' env' where "lookup_attempt qh env1 ?k2 r1 now = (Some msg, r', env')"
      by (cases "lookup_attempt qh env1 ?k2 r1 now") auto
    from lookup_attempt_Some[OF this] show ?thesis by blast
  qed
  with eq show ?thesis by simp
qed

theorem dns_cache_lookup_cname_fallback_witness:
  "lookup_attempt ex_hash ex_cname_env \<lparr>qname = ex_qname, qtype = LDNS_RR_TYPE_A, qclass = 1\<rparr> 8 100
     = (None, 8, ex_cname_env) \<and>
   fst (dns_cache_lookup ex_hash ex_cname_env ex_qname LDNS_RR_TYPE_A 1 8 100) =
     Some \<lparr>msg_qinfo = ex_cname_key, msg_rep = \<lparr>rep_flags = BIT_QR, rep_qdcount = 1,
       rep_ttl = 300, an_numrrsets = 1,
       ns_numrrsets = 0, ar_numrrsets = 0,
       rrsets = [ex_cname_rrset\<lparr>k_data := (k_data ex_cname_rrset)\<lparr>d_ttl := 200, rr_ttl := [200, 300]\<rparr>\<rparr>],
       ref = []\<rparr>\<rparr>"
proof -
  have first: "lookup_attempt ex_hash ex_cname_env
      \<lparr>qname = ex_qname, qtype = LDNS_RR_TYPE_A, qclass = 1\<rparr> 8 100 = (None, 8, ex_cname_env)"
    by (simp add: lookup_attempt_def ex_cname_env_def slabhash_lookup_def slab_idx_def
        lruhash_lookup_def entry_matches_def ex_hash_def ex_cname_key_def LDNS_RR_TYPE_A_def
        LDNS_RR_TYPE_CNAME_def)
  have second: "fst (lookup_attempt ex_hash ex_cname_env ex_cname_key 8 100) =
     Some \<lparr>msg_qinfo = ex_cname_key, msg_rep = \<lparr>rep_flags = BIT_QR, rep_qdcount = 1,
       rep_ttl = 300, an_numrrsets = 1,
       ns_numrrsets = 0, ar_numrrsets = 0,
       rrsets = [ex_cname_rrset\<lparr>k_data := (k_data ex_cname_rrset)\<lparr>d_ttl := 200, rr_ttl := [200, 300]\<rparr>\<rparr>],
       ref = []\<rparr>\<rparr>"
    by (simp add: lookup_attempt_def ex_cname_env_def slabhash_lookup_def slab_idx_def
        lruhash_lookup_def entry_matches_def ex_cname_key_def
        tomsg_def region_alloc_def rrset_array_lock_def rrset_expired_def ex_cname_reply_def
        ex_cname_rrset_def copy_rrset_def copy_rrset_ttls.simps Let_def)
  from dns_cache_lookup_cname_fallback [OF first] first second
  show ?thesis by (simp add: ex_cname_key_def)
qed

subsection \<open>Storing and exporting TTLs\<close>


lemma rrset_cache_update_rk:
  assumes "rrset_cache_update h l r now = (c, r', h', l')"
  shows "rk_of (h' x) = rk_of (h x)"
  using assms
  by (auto simp: rrset_cache_update_def rk_of_def Let_def split: option.splits if_splits)

lemma rrset_cache_update_lru:
  assumes "rrset_cache_update h l r now = (c, r', h', l')"
  shows "set l \<subseteq> set l' \<and> (\<exists>x\<in>set l'. rk_of (h x) = rk_of (h (ref_key r)))"
  using assms
  by (auto simp: rrset_cache_update_def rk_eq_def Let_def split: option.splits if_splits
      dest: find_Some_holds)

lemma store_rrsets_loop_rk:
  "store_rrsets_loop h l as now = (as', rs, h', l') \<Longrightarrow> rk_of (h' x) = rk_of (h x)"
proof (induction as arbitrary: h l as' rs h' l')
  case Nil
  then show ?case by simp
next
  case (Cons a as)
  obtain c r h1 l1 where u: "rrset_cache_update h l \<lparr>ref_key = a, ref_id = k_id (h a)\<rparr> now = (c, r, h1, l1)"
    by (cases "rrset_cache_update h l \<lparr>ref_key = a, ref_id = k_id (h a)\<rparr> now") auto
  obtain as2 rs2 h2 l2 where lp: "store_rrsets_loop h1 l1 as now = (as2, rs2, h2, l2)"
    by (cases "store_rrsets_loop h1 l1 as now") auto
  from Cons.prems u lp have "h' = h2" by simp
  with Cons.IH[OF lp] rrset_cache_update_rk[OF u] show ?case by simp
qed

lemma store_rrsets_loop_cached:
  "store_rrsets_loop h l as now = (as', rs, h', l') \<Longrightarrow>
   set l \<subseteq> set l' \<and> (\<forall>a\<in>set as. \<exists>x\<in>set l'. rk_of (h' x) = rk_of (h a))"
proof (induction as arbitrary: h l as' rs h' l')
  case Nil
  then show ?case by simp
next
  case (Cons a as)
  obtain c r h1 l1 where u: "rrset_cache_update h l \<lparr>ref_key = a, ref_id = k_id (h a)\<rparr> now = (c, r, h1, l1)"
    by (cases "rrset_cache_update h l \<lparr>ref_key = a, ref_id = k_id (h a)\<rparr> now") auto
  obtain as2 rs2 h2 l2 where lp: "store_rrsets_loop h1 l1 as now = (as2, rs2, h2, l2)"
    by (cases "store_rrsets_loop h1 l1 as now") auto
  from Cons.prems u lp have eq: "h' = h2" "l' = l2" by simp_all
  note ih = Cons.IH[OF lp]
  note rk1 = rrset_cache_update_rk[OF u]
  note rk2 = store_rrsets_loop_rk[OF lp]
  from rrset_cache_update_lru[OF u] obtain x where x: "x \<in> set l1" "rk_of (h x) = rk_of (h a)"
    by auto
  have sub: "set l \<subseteq> set l2" using rrset_cache_update_lru[OF u] ih by auto
  have "\<exists>x\<in>set l2. rk_of (h2 x) = rk_of (h a)"
    using x ih rk1 rk2 by (intro bexI[of _ x]) auto
  moreover have "\<forall>b\<in>set as. \<exists>x\<in>set l2. rk_of (h2 x) = rk_of (h b)"
    using ih rk1 by simp
  ultimately show ?case using eq sub by simp
qed

lemma fold_upd_distinct:
  "distinct as \<Longrightarrow>
   fold (\<lambda>a h'. h'(a := f (h' a))) as h = (\<lambda>x. if x \<in> set as then f (h x) else h x)"
proof (induction as arbitrary: h)
  case Nil
  then show ?case by simp
next
  case (Cons a as)
  then show ?case by (auto simp: fun_eq_iff)
qed

lemma reply_info_set_ttls_heap:
  "fst (reply_info_set_ttls h rep now) =
     (\<lambda>x. if x \<in> ref_key ` set (ref rep) then add_ttls now (h x) else h x)"
  by (simp add: reply_info_set_ttls_def fold_upd_distinct)

lemma reply_info_set_ttls_rep:
  "snd (reply_info_set_ttls h rep now) = rep\<lparr>rep_ttl := rep_ttl rep + now\<rparr>"
  by (simp add: reply_info_set_ttls_def)

lemma rk_of_add_ttls: "rk_of (add_ttls now k) = rk_of k"
  by (simp add: rk_of_def add_ttls_def)













lemma sortref_keys: "ref_key ` set (ref (reply_info_sortref rep)) = ref_key ` set (ref rep)"
  by (simp add: reply_info_sortref_def)

lemma store_msg_unfold:
  assumes "dns_cache_store_msg malloc_ok env qinfo hash rep now = (env', rep')"
  shows "\<exists>as rs h l.
     store_rrsets_loop (\<lambda>x. if x \<in> set (rrsets rep) then add_ttls now (rrset_heap env x)
                              else rrset_heap env x)
        (rrset_lru env) (rrsets rep) now = (as, rs, h, l) \<and>
     rrset_heap env' = h \<and> rrset_lru env' = l \<and>
     rep_ttl rep' = rep_ttl rep + now \<and> rrsets rep' = as \<and>
     msg_cache env' =
       (if rep_ttl rep = 0 \<or> \<not> malloc_ok then msg_cache env
        else fst (slabhash_insert (msg_cache env) hash qinfo rep'))"
proof -
  let ?rep1 = "rep\<lparr>ref := map (\<lambda>a. \<lparr>ref_key = a, ref_id = k_id (rrset_heap env a)\<rparr>) (rrsets rep)\<rparr>"
  let ?rep2 = "reply_info_sortref ?rep1"
  let ?h3 = "\<lambda>x. if x \<in> set (rrsets rep) then add_ttls now (rrset_heap env x) else rrset_heap env x"
  let ?rep3 = "?rep2\<lparr>rep_ttl := rep_ttl ?rep2 + now\<rparr>"
  have keys: "ref_key ` set (ref ?rep2) = set (rrsets rep)"
    by (simp add: sortref_keys image_image)
  have "fst (reply_info_set_ttls (rrset_heap env) ?rep2 now) = ?h3"
    by (simp only: reply_info_set_ttls_heap keys)
  then have eq1: "reply_info_set_ttls (rrset_heap env) ?rep2 now = (?h3, ?rep3)"
    by (simp add: prod_eq_iff reply_info_set_ttls_rep)
  obtain as rs h l where lp: "store_rrsets_loop ?h3 (rrset_lru env) (rrsets rep) now = (as, rs, h, l)"
    by (cases "store_rrsets_loop ?h3 (rrset_lru env) (rrsets rep) now") auto
  have r3: "rrsets ?rep3 = rrsets rep" "rep_ttl ?rep2 = rep_ttl rep"
    by (simp_all add: reply_info_sortref_def)
  have eq2: "store_rrsets (env\<lparr>rrset_heap := ?h3\<rparr>) ?rep3 now =
      (env\<lparr>rrset_heap := h, rrset_lru := l\<rparr>, ?rep3\<lparr>rrsets := as, ref := rs\<rparr>)"
    unfolding store_rrsets_def using lp by (simp add: reply_info_sortref_def)
  have "dns_cache_store_msg malloc_ok env qinfo hash rep now =
     (if rep_ttl rep = 0 then (env\<lparr>rrset_heap := h, rrset_lru := l\<rparr>, ?rep3\<lparr>rrsets := as, ref := rs\<rparr>)
      else if \<not> malloc_ok then (env\<lparr>rrset_heap := h, rrset_lru := l\<rparr>,
             reply_info_sortref (?rep3\<lparr>rrsets := as, ref := rs\<rparr>))
      else (env\<lparr>rrset_heap := h, rrset_lru := l,
                msg_cache := fst (slabhash_insert (msg_cache env) hash qinfo
                   (reply_info_sortref (?rep3\<lparr>rrsets := as, ref := rs\<rparr>)))\<rparr>,
            reply_info_sortref (?rep3\<lparr>rrsets := as, ref := rs\<rparr>)))"
    unfolding dns_cache_store_msg_def Let_def eq1 prod.case eq2 by simp
  with assms lp show ?thesis
    by (auto simp: reply_info_sortref_def split: if_splits)
qed


text \<open>
  Claim C9: when \<open>dns_cache_store_msg\<close> is called with a reply whose TTL is 0, the
  message cache is left unchanged, and the referenced RRsets are still written through:
  after the call the RRset cache holds an entry under the key of every RRset of the
  reply, and the RRset cache is the one the call leaves for the same reply with any
  other TTL, whatever the key, the hash and the outcome of the entry allocation.
\<close>

theorem store_msg_ttl_zero:
  assumes "rep_ttl rep = 0"
  shows "msg_cache (fst (dns_cache_store_msg malloc_ok env qinfo hash rep now)) = msg_cache env \<and>
    (\<forall>a \<in> set (rrsets rep).
       rrset_cached (fst (dns_cache_store_msg malloc_ok env qinfo hash rep now)) (rrset_heap env a)) \<and>
    rrset_heap (fst (dns_cache_store_msg malloc_ok env qinfo hash rep now)) =
      rrset_heap (fst (dns_cache_store_msg malloc_ok' env qinfo' hash' (rep\<lparr>rep_ttl := t\<rparr>) now)) \<and>
    rrset_lru (fst (dns_cache_store_msg malloc_ok env qinfo hash rep now)) =
      rrset_lru (fst (dns_cache_store_msg malloc_ok' env qinfo' hash' (rep\<lparr>rep_ttl := t\<rparr>) now))"
proof -
  let ?h3 = "\<lambda>x. if x \<in> set (rrsets rep) then add_ttls now (rrset_heap env x) else rrset_heap env x"
  obtain env' rep' where r: "dns_cache_store_msg malloc_ok env qinfo hash rep now = (env', rep')"
    by (cases "dns_cache_store_msg malloc_ok env qinfo hash rep now")
  obtain env2 rep2 where r2:
    "dns_cache_store_msg malloc_ok' env qinfo' hash' (rep\<lparr>rep_ttl := t\<rparr>) now = (env2, rep2)"
    by (cases "dns_cache_store_msg malloc_ok' env qinfo' hash' (rep\<lparr>rep_ttl := t\<rparr>) now")
  from store_msg_unfold[OF r] assms obtain as rs h l where
    lp: "store_rrsets_loop ?h3 (rrset_lru env) (rrsets rep) now = (as, rs, h, l)"
    and e: "rrset_heap env' = h" "rrset_lru env' = l" "msg_cache env' = msg_cache env"
    by auto
  from store_msg_unfold[OF r2] lp have e2: "rrset_heap env2 = h" "rrset_lru env2 = l"
    by auto
  have "rrset_cached env' (rrset_heap env a)" if a: "a \<in> set (rrsets rep)" for a
  proof -
    from store_rrsets_loop_cached[OF lp] a obtain x where
      "x \<in> set l" "rk_of (h x) = rk_of (?h3 a)" by blast
    with a e show ?thesis
      by (auto simp: rrset_cached_def rk_eq_def rk_of_add_ttls)
  qed
  with r r2 e e2 show ?thesis by simp
qed

theorem store_msg_ttl_zero_witness:
  "rep_ttl ex_zero_reply = 0 \<and>
   msg_cache (fst (dns_cache_store_msg True ex_store_env ex_key (ex_hash ex_key) ex_zero_reply 1000))
     = msg_cache ex_store_env \<and>
   rrset_cached (fst (dns_cache_store_msg True ex_store_env ex_key (ex_hash ex_key) ex_zero_reply 1000))
     ex_new_rrset"
proof -
  have z: "rep_ttl ex_zero_reply = 0" by (simp add: ex_zero_reply_def)
  from store_msg_ttl_zero [OF z, of True ex_store_env ex_key "ex_hash ex_key" 1000] z
  show ?thesis by (simp add: ex_zero_reply_def ex_store_reply_def ex_store_env_def)
qed



subsection \<open>The closest cached delegation\<close>

lemma rrset_cache_lookup_miss:
  "fst (rrset_cache_lookup h l nm t c fl now) = None \<Longrightarrow>
   rrset_cache_lookup h l nm t c fl now = (None, l)"
  by (auto simp: rrset_cache_lookup_def split: option.splits if_splits)

lemma rrset_cache_lookup_hit:
  "rrset_cache_lookup h l nm t c fl now = (Some a, l') \<Longrightarrow> rk_of (h a) = (nm, t, c, fl)"
  by (auto simp: rrset_cache_lookup_def split: option.splits if_splits dest: find_Some_holds)

lemma dname_ancestors_Nil: "dname_ancestors [] = []"
  by (subst dname_ancestors.simps) simp

lemma dname_ancestors_Cons:
  "dname_ancestors (b # rest) = (b # rest) # dname_ancestors (drop (unat b) rest)"
  by (subst dname_ancestors.simps) simp

lemma dname_ancestors_suffix:
  "s \<in> set (dname_ancestors nm) \<Longrightarrow> \<exists>pre. nm = pre @ s"
proof (induction nm arbitrary: s rule: length_induct)
  case (1 nm)
  show ?case
  proof (cases nm)
    case Nil
    with "1.prems" show ?thesis by (simp add: dname_ancestors_Nil)
  next
    case (Cons b rest)
    with "1.prems" consider "s = nm" | "s \<in> set (dname_ancestors (drop (unat b) rest))"
      by (auto simp: dname_ancestors_Cons)
    then show ?thesis
    proof cases
      case 1
      then show ?thesis by simp
    next
      case 2
      have "length (drop (unat b) rest) < length nm" using Cons by simp
      with "1.IH" 2 obtain pre where "drop (unat b) rest = pre @ s" by blast
      then have "nm = (b # take (unat b) rest @ pre) @ s"
        using Cons by (metis append.assoc append_Cons append_take_drop_id)
      then show ?thesis by blast
    qed
  qed
qed

lemma dname_ancestors_length:
  "s \<in> set (dname_ancestors nm) \<Longrightarrow> length s \<le> length nm"
  using dname_ancestors_suffix[of s nm] by auto

lemma find_ancestors_longest:
  "find P (dname_ancestors nm) = Some s \<Longrightarrow>
   \<forall>s' \<in> set (dname_ancestors nm). P s' \<longrightarrow> length s' \<le> length s"
proof (induction nm arbitrary: s rule: length_induct)
  case (1 nm)
  show ?case
  proof (cases nm)
    case Nil
    with "1.prems" show ?thesis by (simp add: dname_ancestors_Nil)
  next
    case (Cons b rest)
    let ?tl = "drop (unat b) rest"
    have anc: "dname_ancestors nm = nm # dname_ancestors ?tl"
      using Cons by (simp add: dname_ancestors_Cons)
    show ?thesis
    proof (cases "P nm")
      case True
      with "1.prems" anc have "s = nm" by simp
      then show ?thesis using dname_ancestors_length by blast
    next
      case False
      with "1.prems" anc have f: "find P (dname_ancestors ?tl) = Some s" by simp
      have "length ?tl < length nm" using Cons by simp
      with "1.IH" f have "\<forall>s' \<in> set (dname_ancestors ?tl). P s' \<longrightarrow> length s' \<le> length s"
        by blast
      with False anc show ?thesis by auto
    qed
  qed
qed

lemma find_deleg_ns_valid:
  "dname_valid qn \<Longrightarrow>
   find_deleg_ns h l qn qc now =
     (case find (\<lambda>s. fst (rrset_cache_lookup h l s LDNS_RR_TYPE_NS qc 0 now) \<noteq> None)
             (dname_ancestors qn) of
        None \<Rightarrow> Inr (None, l)
      | Some s \<Rightarrow> Inr (rrset_cache_lookup h l s LDNS_RR_TYPE_NS qc 0 now))"
proof (induction qn rule: length_induct)
  case (1 qn)
  from "1.prems" obtain b rest where qn: "qn = b # rest"
    by (cases qn) (auto simp: dname_valid.simps)
  let ?tl = "drop (unat b) rest"
  let ?P = "\<lambda>s. fst (rrset_cache_lookup h l s LDNS_RR_TYPE_NS qc 0 now) \<noteq> None"
  have anc: "dname_ancestors qn = qn # dname_ancestors ?tl"
    using qn by (simp add: dname_ancestors_Cons)
  show ?case
  proof (cases "?P qn")
    case True
    then obtain a l1 where "rrset_cache_lookup h l qn LDNS_RR_TYPE_NS qc 0 now = (Some a, l1)"
      by (cases "rrset_cache_lookup h l qn LDNS_RR_TYPE_NS qc 0 now") auto
    with True anc qn show ?thesis
      by (subst find_deleg_ns.simps) simp
  next
    case False
    then have miss: "rrset_cache_lookup h l qn LDNS_RR_TYPE_NS qc 0 now = (None, l)"
      by (simp add: rrset_cache_lookup_miss)
    show ?thesis
    proof (cases "b = 0")
      case True
      with "1.prems" qn have rest: "rest = []" by (simp add: dname_valid.simps)
      have "find_deleg_ns h l [] qc now = Inr (None, l)"
        by (subst find_deleg_ns.simps) simp
      with True rest qn miss False anc show ?thesis
        by (subst find_deleg_ns.simps) (simp add: dname_ancestors_Nil)
    next
      case nz: False
      with "1.prems" qn have le: "unat b \<le> length rest" and v: "dname_valid ?tl"
        by (simp_all add: dname_valid.simps)
      have "length ?tl < length qn" using qn by simp
      with "1.IH" v have ih: "find_deleg_ns h l ?tl qc now =
        (case find ?P (dname_ancestors ?tl) of None \<Rightarrow> Inr (None, l)
         | Some s \<Rightarrow> Inr (rrset_cache_lookup h l s LDNS_RR_TYPE_NS qc 0 now))"
        by blast
      have "find_deleg_ns h l qn qc now = find_deleg_ns h l ?tl qc now"
        using qn miss le by (subst find_deleg_ns.simps) simp
      with ih False anc show ?thesis by simp
    qed
  qed
qed

lemma delegpt_add_ns_rrs_name: "dp_name (fst (snd (delegpt_add_ns_rrs dp region rds))) = dp_name dp"
  by (induction rds arbitrary: dp region) (auto simp: Let_def split: prod.splits)

lemma delegpt_add_addr_rrs_name: "dp_name (fst (snd (delegpt_add_addr_rrs dp region rds))) = dp_name dp"
  by (induction rds arbitrary: dp region) (auto simp: Let_def split: prod.splits)

lemma find_add_addr_type_name:
  "dp_name (fst (snd (find_add_addr_type h qc now t nm (dp, msg, region, l)))) = dp_name dp"
proof -
  have a: "dp_name dp1 = dp_name dp"
    if "delegpt_add_addr_rrs dp region rds = (ok, dp1, r1)" for rds ok dp1 r1
    using delegpt_add_addr_rrs_name[of dp region rds] that by simp
  show ?thesis
    by (auto simp: find_add_addr_type_def Let_def delegpt_add_rrset_A_def
        delegpt_add_rrset_AAAA_def a split: prod.splits option.splits if_splits)
qed

lemma find_add_addrs_name:
  "dp_name (fst (snd (find_add_addrs h qc now nss (dp, msg, region, l)))) = dp_name dp"
proof (induction nss arbitrary: dp msg region l)
  case Nil
  then show ?case by simp
next
  case (Cons ns nss)
  obtain ok1 dp1 m1 r1 l1 where s1:
    "find_add_addr_type h qc now LDNS_RR_TYPE_A ns (dp, msg, region, l) = (ok1, dp1, m1, r1, l1)"
    by (cases "find_add_addr_type h qc now LDNS_RR_TYPE_A ns (dp, msg, region, l)") auto
  obtain ok2 dp2 m2 r2 l2 where s2:
    "find_add_addr_type h qc now LDNS_RR_TYPE_AAAA ns (dp1, m1, r1, l1) = (ok2, dp2, m2, r2, l2)"
    by (cases "find_add_addr_type h qc now LDNS_RR_TYPE_AAAA ns (dp1, m1, r1, l1)") auto
  have n1: "dp_name dp1 = dp_name dp"
    using find_add_addr_type_name[of h qc now LDNS_RR_TYPE_A ns dp msg region l] s1 by simp
  have n2: "dp_name dp2 = dp_name dp1"
    using find_add_addr_type_name[of h qc now LDNS_RR_TYPE_AAAA ns dp1 m1 r1 l1] s2 by simp
  show ?case
    using s1 s2 n1 n2 Cons.IH[of dp2 m2 r2 l2] by (cases ok1; cases ok2) simp_all
qed

lemma copy_rrset_enough: "3 \<le> region \<Longrightarrow> fst (copy_rrset key region now) \<noteq> None"
  by (simp add: copy_rrset_def region_alloc_def Let_def)

lemma create_msg_enough: "7 \<le> region \<Longrightarrow> fst (create_msg qn qt qc region key now) \<noteq> None"
  by (simp add: create_msg_def copy_rrset_def region_alloc_def Let_def)

lemma find_delegation_found:
  assumes ns: "find_deleg_ns (rrset_heap env) (rrset_lru env) qn qc now = Inr (Some nskey, l1)"
    and mem: "deleg_allocs want_msg \<le> region"
  shows "\<exists>dp msg r env'.
     dns_cache_find_delegation env qn qt qc region want_msg now = Inr (Some dp, msg, r, env') \<and>
     dp_name dp = k_dname (rrset_heap env nskey)"
proof -
  let ?h = "rrset_heap env"
  let ?dp1 = "\<lparr>dp_name = k_dname (?h nskey), dp_nslist = [], dp_target_list = []\<rparr>"
  from mem have r2: "2 \<le> region" by (simp add: deleg_allocs_def split: if_splits)
  then have c: "delegpt_create region = (Some \<lparr>dp_name = [], dp_nslist = [], dp_target_list = []\<rparr>, region - 1)"
    by (simp add: delegpt_create_def region_alloc_def)
  have s: "delegpt_set_name \<lparr>dp_name = [], dp_nslist = [], dp_target_list = []\<rparr> (region - 1)
             (k_dname (?h nskey)) = (True, ?dp1, region - 2)"
    using r2 by (simp add: delegpt_set_name_def region_alloc_def)
  obtain msg r3 where m: "(if want_msg then create_msg qn qt qc (region - 2) (?h nskey) now
                           else (None, region - 2)) = (msg, r3)"
    by (cases "if want_msg then create_msg qn qt qc (region - 2) (?h nskey) now else (None, region - 2)")
  have mok: "\<not> (want_msg \<and> msg = None)"
  proof
    assume a: "want_msg \<and> msg = None"
    with mem have "7 \<le> region - 2" by (simp add: deleg_allocs_def)
    from create_msg_enough[OF this, of qn qt qc "?h nskey" now] a m show False by simp
  qed
  obtain ns_ok dp2 r4 where a: "delegpt_rrset_add_ns ?dp1 r3 (?h nskey) = (ns_ok, dp2, r4)"
    by (cases "delegpt_rrset_add_ns ?dp1 r3 (?h nskey)") auto
  have n2: "dp_name dp2 = k_dname (?h nskey)"
    using delegpt_add_ns_rrs_name[of ?dp1 r3
        "take (d_count (k_data (?h nskey))) (rr_data (k_data (?h nskey)))"] a
    by (simp add: delegpt_rrset_add_ns_def)
  obtain msg2 r5 l2 where d: "(case msg of None \<Rightarrow> (None, r4, l1)
       | Some m \<Rightarrow> (let (m1, ra, la) = find_add_ds ?h l1 r4 m dp2 now in (Some m1, ra, la)))
       = (msg2, r5, l2)"
    by (cases "(case msg of None \<Rightarrow> (None, r4, l1)
       | Some m \<Rightarrow> (let (m1, ra, la) = find_add_ds ?h l1 r4 m dp2 now in (Some m1, ra, la)))") auto
  obtain addrs_ok dp3 msg3 r6 l3 where f:
    "find_add_addrs ?h qc now (dp_nslist dp2) (dp2, msg2, r5, l2) = (addrs_ok, dp3, msg3, r6, l3)"
    by (cases "find_add_addrs ?h qc now (dp_nslist dp2) (dp2, msg2, r5, l2)") auto
  have n3: "dp_name dp3 = dp_name dp2"
    using find_add_addrs_name[of ?h qc now "dp_nslist dp2" dp2 msg2 r5 l2] f by simp
  have "dns_cache_find_delegation env qn qt qc region want_msg now =
      Inr (Some dp3, msg3, r6, env\<lparr>rrset_lru := l3\<rparr>)"
    using c s m mok a d f by (simp add: dns_cache_find_delegation_def ns Let_def)
  with n2 n3 show ?thesis by simp
qed

lemma create_msg_short: "region < 7 \<Longrightarrow> fst (create_msg qn qt qc region key now) = None"
  by (auto simp: create_msg_def copy_rrset_def region_alloc_def Let_def)

lemma find_delegation_no_memory:
  assumes ns: "find_deleg_ns (rrset_heap env) (rrset_lru env) qn qc now = Inr (Some nskey, l1)"
    and mem: "region < deleg_allocs want_msg"
  shows "\<exists>r. dns_cache_find_delegation env qn qt qc region want_msg now =
              Inr (None, None, r, env\<lparr>rrset_lru := l1\<rparr>)"
proof (cases "region < 2")
  case True
  then have "region = 0 \<or> region = 1" by auto
  then show ?thesis
    by (auto simp: dns_cache_find_delegation_def ns Let_def delegpt_create_def
        delegpt_set_name_def region_alloc_def)
next
  case False
  with mem have w: want_msg and r: "region - 2 < 7" by (auto simp: deleg_allocs_def split: if_splits)
  from False have c: "delegpt_create region =
      (Some \<lparr>dp_name = [], dp_nslist = [], dp_target_list = []\<rparr>, region - 1)"
    by (simp add: delegpt_create_def region_alloc_def)
  have s: "delegpt_set_name \<lparr>dp_name = [], dp_nslist = [], dp_target_list = []\<rparr> (region - 1)
      (k_dname (rrset_heap env nskey)) =
      (True, \<lparr>dp_name = k_dname (rrset_heap env nskey), dp_nslist = [], dp_target_list = []\<rparr>,
       region - 2)"
    using False by (simp add: delegpt_set_name_def region_alloc_def)
  obtain msg r3 where m: "create_msg qn qt qc (region - 2) (rrset_heap env nskey) now = (msg, r3)"
    by (cases "create_msg qn qt qc (region - 2) (rrset_heap env nskey) now")
  with create_msg_short[OF r, of qn qt qc "rrset_heap env nskey" now] have "msg = None" by simp
  with c s m w show ?thesis
    by (simp add: dns_cache_find_delegation_def ns Let_def)
qed

text \<open>
  Claim C3, as the code has it: for a name in wire format that has a cached, unexpired NS
  RRset at itself or at one of its ancestors, \<open>dns_cache_find_delegation\<close> returns a
  delegation point when the region can serve the allocations it needs (two, and nine
  when a referral message is asked for). The owner name of that delegation point is the
  longest such name, so it is the name being chased or an ancestor of it. When the
  region cannot serve these allocations the function returns NULL.
\<close>

theorem dns_cache_find_delegation_closest:
  assumes valid: "dname_valid qn"
    and cached: "\<exists>s \<in> set (dname_ancestors qn). ns_cached env qc now s"
  shows "(deleg_allocs want_msg \<le> region \<longrightarrow>
      (\<exists>dp msg r env'.
         dns_cache_find_delegation env qn qt qc region want_msg now = Inr (Some dp, msg, r, env') \<and>
         dp_name dp \<in> set (dname_ancestors qn) \<and>
         ns_cached env qc now (dp_name dp) \<and>
         (\<forall>s \<in> set (dname_ancestors qn). ns_cached env qc now s \<longrightarrow> length s \<le> length (dp_name dp)) \<and>
         (\<exists>pre. qn = pre @ dp_name dp))) \<and>
    (region < deleg_allocs want_msg \<longrightarrow>
      (\<exists>r env'. dns_cache_find_delegation env qn qt qc region want_msg now =
                  Inr (None, None, r, env')))"
proof -
  let ?h = "rrset_heap env" and ?l = "rrset_lru env"
  let ?P = "\<lambda>s. fst (rrset_cache_lookup ?h ?l s LDNS_RR_TYPE_NS qc 0 now) \<noteq> None"
  from cached have "\<exists>s \<in> set (dname_ancestors qn). ?P s" by (simp add: ns_cached_def)
  then obtain s where f: "find ?P (dname_ancestors qn) = Some s"
    by (cases "find ?P (dname_ancestors qn)") (auto simp: find_None_iff)
  then have s: "?P s" "s \<in> set (dname_ancestors qn)" by (auto dest: find_Some_holds)
  then obtain nskey l1 where lk: "rrset_cache_lookup ?h ?l s LDNS_RR_TYPE_NS qc 0 now = (Some nskey, l1)"
    by (cases "rrset_cache_lookup ?h ?l s LDNS_RR_TYPE_NS qc 0 now") auto
  from find_deleg_ns_valid[OF valid, of ?h ?l qc now] f lk
  have ns: "find_deleg_ns ?h ?l qn qc now = Inr (Some nskey, l1)" by simp
  from rrset_cache_lookup_hit[OF lk] have nm: "k_dname (?h nskey) = s" by (simp add: rk_of_def)
  have longest: "\<forall>s' \<in> set (dname_ancestors qn). ns_cached env qc now s' \<longrightarrow> length s' \<le> length s"
    using find_ancestors_longest[OF f] by (simp add: ns_cached_def)
  have suf: "\<exists>pre. qn = pre @ s" using dname_ancestors_suffix[OF s(2)] .
  have c: "ns_cached env qc now s" using s(1) by (simp add: ns_cached_def)
  show ?thesis
  proof (intro conjI impI)
    assume "deleg_allocs want_msg \<le> region"
    from find_delegation_found[OF ns this, of qt] nm s(2) c longest suf
    show "\<exists>dp msg r env'.
         dns_cache_find_delegation env qn qt qc region want_msg now = Inr (Some dp, msg, r, env') \<and>
         dp_name dp \<in> set (dname_ancestors qn) \<and>
         ns_cached env qc now (dp_name dp) \<and>
         (\<forall>s \<in> set (dname_ancestors qn). ns_cached env qc now s \<longrightarrow> length s \<le> length (dp_name dp)) \<and>
         (\<exists>pre. qn = pre @ dp_name dp)"
      by auto
  next
    assume "region < deleg_allocs want_msg"
    from find_delegation_no_memory[OF ns this, of qt]
    show "\<exists>r env'. dns_cache_find_delegation env qn qt qc region want_msg now =
                  Inr (None, None, r, env')" by blast
  qed
qed

theorem dns_cache_find_delegation_closest_witness:
  "dname_valid ex_qname \<and>
   (\<exists>s \<in> set (dname_ancestors ex_qname). ns_cached ex_deleg_env 1 100 s) \<and>
   deleg_allocs False \<le> 3 \<and>
   (\<exists>dp msg r env'.
      dns_cache_find_delegation ex_deleg_env ex_qname LDNS_RR_TYPE_A 1 3 False 100 =
        Inr (Some dp, msg, r, env') \<and>
      dp_name dp \<in> set (dname_ancestors ex_qname) \<and>
      ns_cached ex_deleg_env 1 100 (dp_name dp) \<and>
      (\<forall>s \<in> set (dname_ancestors ex_qname).
          ns_cached ex_deleg_env 1 100 s \<longrightarrow> length s \<le> length (dp_name dp)) \<and>
      (\<exists>pre. ex_qname = pre @ dp_name dp)) \<and>
   0 < deleg_allocs False \<and>
   (\<exists>r env'. dns_cache_find_delegation ex_deleg_env ex_qname LDNS_RR_TYPE_A 1 0 False 100 =
               Inr (None, None, r, env'))"
proof -
  have valid: "dname_valid ex_qname"
    by (simp add: ex_qname_def dname_valid.simps)
  have anc: "dname_ancestors ex_qname = [ex_qname, ex_com, [0]]"
    by (simp add: ex_qname_def ex_com_def dname_ancestors.simps)
  have "ns_cached ex_deleg_env 1 100 ex_com"
    by (simp add: ns_cached_def rrset_cache_lookup_def ex_deleg_env_def rk_of_def ex_ns_com_def
        ex_ns_root_def ex_com_def LDNS_RR_TYPE_NS_def rrset_expired_def)
  with anc have cached: "\<exists>s \<in> set (dname_ancestors ex_qname). ns_cached ex_deleg_env 1 100 s"
    by simp
  from dns_cache_find_delegation_closest [OF valid cached, of False 3 LDNS_RR_TYPE_A]
    dns_cache_find_delegation_closest [OF valid cached, of False 0 LDNS_RR_TYPE_A]
    valid cached
  show ?thesis by (simp add: deleg_allocs_def)
qed

text \<open>
  Claim C3 as stated fails when the region is exhausted: \<open>example.com.\<close> has the
  cached NS RRset of \<open>com.\<close> above it, and the function returns NULL. With room for
  three allocations it returns the delegation point of \<open>com.\<close>, not that of the root.
\<close>

theorem dns_cache_find_delegation_no_memory_counterexample:
  "dname_valid ex_qname \<and>
   dname_ancestors ex_qname = [ex_qname, ex_com, [0]] \<and>
   ns_cached ex_deleg_env 1 100 ex_com \<and>
   dns_cache_find_delegation ex_deleg_env ex_qname LDNS_RR_TYPE_A 1 0 False 100 =
     Inr (None, None, 0, ex_deleg_env\<lparr>rrset_lru := [4, 5]\<rparr>) \<and>
   dns_cache_find_delegation ex_deleg_env ex_qname LDNS_RR_TYPE_A 1 3 False 100 =
     Inr (Some \<lparr>dp_name = ex_com, dp_nslist = [[1, 0x61, 3, 0x6e, 0x69, 0x63, 0]],
                 dp_target_list = []\<rparr>, None, 0, ex_deleg_env\<lparr>rrset_lru := [4, 5]\<rparr>)"
  by (simp add: dns_cache_find_delegation_def find_deleg_ns.simps rrset_cache_lookup_def
      ex_deleg_env_def rk_of_def ex_ns_com_def ex_ns_root_def ex_com_def ex_qname_def
      LDNS_RR_TYPE_NS_def rrset_expired_def null_rrset_def Let_def delegpt_create_def
      delegpt_set_name_def region_alloc_def delegpt_rrset_add_ns_def find_add_addr_type_def
      LDNS_RR_TYPE_A_def LDNS_RR_TYPE_AAAA_def ex_env_def dname_valid.simps
      dname_ancestors.simps ns_cached_def)

subsection \<open>Ignored options and the permissive mode\<close>

text \<open>
  Claim C8: for every value string, the action for \<open>infra-lame-ttl\<close> and the action for
  \<open>infra-cache-lame-size\<close> leave the configuration as it is, every field of it, and
  raise no parse error: the error count and the error messages are unchanged. The only
  effect is one call of \<open>verbose\<close> at level \<open>VERB_DETAIL\<close> that says the option is
  ignored.
\<close>

theorem lame_options_ignored:
  "cfg (server_infra_lame_ttl str st) = cfg st \<and>
   errors (server_infra_lame_ttl str st) = errors st \<and>
   error_messages (server_infra_lame_ttl str st) = error_messages st \<and>
   server_infra_lame_ttl str st = st\<lparr>verbose_calls := verbose_calls st @
      [(VERB_DETAIL, ''ignored infra-lame-ttl: '' @ str @ '' (option removed, use infra-host-ttl)'')]\<rparr> \<and>
   cfg (server_infra_cache_lame_size str st) = cfg st \<and>
   errors (server_infra_cache_lame_size str st) = errors st \<and>
   error_messages (server_infra_cache_lame_size str st) = error_messages st \<and>
   server_infra_cache_lame_size str st = st\<lparr>verbose_calls := verbose_calls st @
      [(VERB_DETAIL, ''ignored infra-cache-lame-size: '' @ str
          @ '' (option removed, use infra-cache-numhosts)'')]\<rparr>"
  by (simp add: server_infra_lame_ttl_def server_infra_cache_lame_size_def verbose_def)

text \<open>
  The neighbouring action for \<open>infra-host-ttl\<close> does assign, and does raise an error
  for a value that is not a number. A number outside \<open>int\<close> is stored as \<open>atoi\<close>
  truncates it, or raises the error when it is truncated to 0.
\<close>

lemma atoi_examples:
  "atoi ''900'' = 900 \<and> atoi ''soon'' = 0 \<and> atoi '' -12x'' = - 12 \<and>
   atoi ''4294967296'' = 0 \<and> atoi ''4294967297'' = 1 \<and> atoi ''2147483648'' = - 2147483648 \<and>
   atoi ''99999999999999999999'' = - 1"
  by (simp add: atoi_def strtol_def is_space_def is_digit_def digit_val_def Let_def)

lemma host_ttl_assigns:
  "host_ttl (cfg (server_infra_host_ttl ''900'' st)) = 900 \<and>
   errors (server_infra_host_ttl ''900'' st) = errors st \<and>
   errors (server_infra_host_ttl ''soon'' st) = Suc (errors st) \<and>
   cfg (server_infra_host_ttl ''soon'' st) = cfg st \<and>
   errors (server_infra_host_ttl ''4294967296'' st) = Suc (errors st) \<and>
   host_ttl (cfg (server_infra_host_ttl ''4294967297'' st)) = 1"
  using atoi_examples
  by (simp add: server_infra_host_ttl_def yyerror_def)

lemma val_permissive_mode_parsed:
  "val_permissive_mode (cfg (server_val_permissive_mode ''yes'' st)) \<and>
   \<not> val_permissive_mode (cfg (server_val_permissive_mode ''no'' st)) \<and>
   errors (server_val_permissive_mode ''yes'' st) = errors st \<and>
   errors (server_val_permissive_mode ''maybe'' st) = Suc (errors st)"
  by (simp add: server_val_permissive_mode_def yyerror_def)

text \<open>
  Claim C7: when \<open>permissive_mode\<close> is set and validation yields \<open>bogus\<close>, the status
  surfaced for the client is \<open>indeterminate\<close>, the client does not receive SERVFAIL (and
  the \<open>ad\<close> bit is not set), and the reply is not cached as secure: it is cached for
  \<open>bogus_ttl\<close> with the status validation gave it. The mode is set by the configuration
  line \<open>val-permissive-mode: yes\<close>; with \<open>no\<close> the client of a bogus reply receives
  SERVFAIL.
\<close>

theorem permissive_mode_downgrades_bogus:
  "(permissive_mode ve \<longrightarrow>
      client_security (val_finished ve sec_status_bogus ttl) = sec_status_indeterminate \<and>
      client_rcode (val_finished ve sec_status_bogus ttl) \<noteq> LDNS_RCODE_SERVFAIL \<and>
      \<not> client_ad (val_finished ve sec_status_bogus ttl) \<and>
      cached_security (val_finished ve sec_status_bogus ttl) \<noteq> sec_status_secure \<and>
      cached_ttl (val_finished ve sec_status_bogus ttl) = ve_bogus_ttl ve) \<and>
   permissive_mode (val_apply_cfg ve (cfg (server_val_permissive_mode ''yes'' st))) \<and>
   client_rcode (val_finished (val_apply_cfg ve (cfg (server_val_permissive_mode ''no'' st)))
      sec_status_bogus ttl) = LDNS_RCODE_SERVFAIL"
  by (simp add: server_val_permissive_mode_def val_finished_def val_apply_cfg_def)

theorem permissive_mode_downgrades_bogus_witness:
  "permissive_mode ex_val_env \<and>
   client_security (val_finished ex_val_env sec_status_bogus 3600) = sec_status_indeterminate \<and>
   client_rcode (val_finished ex_val_env sec_status_bogus 3600) = LDNS_RCODE_NOERROR \<and>
   cached_security (val_finished ex_val_env sec_status_bogus 3600) = sec_status_bogus \<and>
   cached_ttl (val_finished ex_val_env sec_status_bogus 3600) = 60"
proof -
  have p: "permissive_mode ex_val_env" by (simp add: ex_val_env_def)
  from permissive_mode_downgrades_bogus [of ex_val_env 3600] p
  show ?thesis by (simp add: ex_val_env_def val_finished_def)
qed

subsection \<open>Inserting into the slab hash\<close>

lemma sum_list_butlast:
  assumes "xs \<noteq> []"
  shows "sum_list (map f (butlast xs)) = sum_list (map f xs) - (f (last xs) :: nat)"
proof -
  have "sum_list (map f (butlast xs @ [last xs])) = sum_list (map f (butlast xs)) + f (last xs)"
    by simp
  with assms show ?thesis by simp
qed

lemma reclaim_space_result:
  "reclaim_space t dead = (t', dead') \<Longrightarrow>
   (\<exists>ev. dead' = dead @ ev \<and> lru_list t = lru_list t' @ rev ev \<and>
         (ev \<noteq> [] \<longrightarrow> space_used t > space_max t)) \<and>
   space_max t' = space_max t \<and> sizefunc t' = sizefunc t \<and>
   (lruhash_accounted t \<longrightarrow> lruhash_accounted t' \<and> space_used t' \<le> space_max t')"
proof (induction t dead arbitrary: t' dead' rule: reclaim_space.induct)
  case (1 t dead)
  show ?case
  proof (cases "space_used t > space_max t \<and> lru_list t \<noteq> []")
    case False
    with "1.prems" have eq: "t' = t" "dead' = dead"
      by (simp_all add: reclaim_space.simps)
    have "lruhash_accounted t \<Longrightarrow> space_used t \<le> space_max t"
      using False by (auto simp: lruhash_accounted_def)
    with eq show ?thesis by simp
  next
    case True
    let ?t1 = "t\<lparr>lru_list := butlast (lru_list t),
                 space_used := space_used t - sizefunc t (last (lru_list t))\<rparr>"
    from "1.prems" True have r: "reclaim_space ?t1 (dead @ [last (lru_list t)]) = (t', dead')"
      by (subst (asm) reclaim_space.simps) simp
    from "1.IH"[OF True r] obtain ev where
      ev: "dead' = (dead @ [last (lru_list t)]) @ ev" "lru_list ?t1 = lru_list t' @ rev ev"
      and rest: "space_max t' = space_max ?t1" "sizefunc t' = sizefunc ?t1"
        "lruhash_accounted ?t1 \<longrightarrow> lruhash_accounted t' \<and> space_used t' \<le> space_max t'"
      by blast
    have acc: "lruhash_accounted t \<Longrightarrow> lruhash_accounted ?t1"
      using True by (simp add: lruhash_accounted_def sum_list_butlast)
    have "lru_list t = butlast (lru_list t) @ [last (lru_list t)]" using True by simp
    with ev(2) have l: "lru_list t = lru_list t' @ rev (last (lru_list t) # ev)" by simp
    have d: "dead' = dead @ (last (lru_list t) # ev)" using ev(1) by simp
    from l d True rest acc show ?thesis by auto
  qed
qed

lemma find_None_matches: "find P l = None \<Longrightarrow> x \<in> set l \<Longrightarrow> \<not> P x"
  by (simp add: find_None_iff)

lemma find_map_swap:
  assumes "find (entry_matches h k) l = Some found"
  shows "find (entry_matches h k) (map (\<lambda>e. if e = found then found\<lparr>e_data := d\<rparr> else e) l)
         = Some (found\<lparr>e_data := d\<rparr>)"
  using assms
proof (induction l)
  case Nil
  then show ?case by simp
next
  case (Cons a l)
  show ?case
  proof (cases "entry_matches h k a")
    case True
    with Cons.prems show ?thesis by (simp add: entry_matches_def)
  next
    case False
    with Cons.prems have "a \<noteq> found" by (auto dest: find_Some_holds)
    with False Cons show ?thesis by simp
  qed
qed

lemma lruhash_insert_present:
  assumes "find (entry_matches h k) (lru_list t) = Some found"
  shows "\<exists>t'. lruhash_insert t h k d = (t', [Lock_rw_wrlock, Swap_data d, Free_data (e_data found), Lock_rw_unlock], []) \<and>
     lru_list t' = map (\<lambda>e. if e = found then found\<lparr>e_data := d\<rparr> else e) (lru_list t) \<and>
     fst (lruhash_lookup t' h k) = Some (found\<lparr>e_data := d\<rparr>) \<and>
     space_max t' = space_max t"
  using assms find_map_swap[OF assms, of d]
  by (simp add: lruhash_insert_def lruhash_lookup_def Let_def)

lemma lruhash_insert_absent:
  assumes "find (entry_matches h k) (lru_list t) = None"
  shows "\<exists>t' dead. lruhash_insert t h k d = (t', [], dead) \<and>
     \<lparr>e_hash = h, e_key = k, e_data = d\<rparr> # lru_list t = lru_list t' @ rev dead \<and>
     space_max t' = space_max t \<and>
     (space_used t + sizefunc t \<lparr>e_hash = h, e_key = k, e_data = d\<rparr> \<le> space_max t \<longrightarrow> dead = []) \<and>
     (lruhash_accounted t \<longrightarrow> lruhash_accounted t' \<and> space_used t' \<le> space_max t')"
proof -
  let ?new = "\<lparr>e_hash = h, e_key = k, e_data = d\<rparr>"
  let ?t1 = "t\<lparr>lru_list := ?new # lru_list t, space_used := space_used t + sizefunc t ?new\<rparr>"
  obtain t' dead where r: "reclaim_space ?t1 [] = (t', dead)"
    by (cases "reclaim_space ?t1 []")
  have acc: "lruhash_accounted t \<Longrightarrow> lruhash_accounted ?t1"
    by (simp add: lruhash_accounted_def)
  from reclaim_space_result[OF r] acc assms r show ?thesis
    by (auto simp: lruhash_insert_def Let_def)
qed

lemma reclaim_space_needed:
  "reclaim_space t dead = (t', dead') \<Longrightarrow> lruhash_accounted t \<Longrightarrow>
   \<exists>ev. dead' = dead @ ev \<and>
     (\<forall>j < length ev. space_max t
          < sum_list (map (sizefunc t) (lru_list t' @ rev (drop j ev))))"
proof (induction t dead arbitrary: t' dead' rule: reclaim_space.induct)
  case (1 t dead)
  show ?case
  proof (cases "space_used t > space_max t \<and> lru_list t \<noteq> []")
    case False
    with "1.prems" have "dead' = dead @ []" by (simp add: reclaim_space.simps)
    then show ?thesis by (intro exI[of _ "[]"]) simp
  next
    case True
    let ?x = "last (lru_list t)"
    let ?t1 = "t\<lparr>lru_list := butlast (lru_list t),
                 space_used := space_used t - sizefunc t ?x\<rparr>"
    from "1.prems" True have r: "reclaim_space ?t1 (dead @ [?x]) = (t', dead')"
      by (subst (asm) reclaim_space.simps) simp
    have acc: "lruhash_accounted ?t1"
      using True "1.prems"(2) by (simp add: lruhash_accounted_def sum_list_butlast)
    from "1.IH"[OF True r acc] obtain ev where
      ev: "dead' = (dead @ [?x]) @ ev"
      and n: "\<forall>j < length ev. space_max t
          < sum_list (map (sizefunc t) (lru_list t' @ rev (drop j ev)))"
      by auto
    from reclaim_space_result[OF r] ev have "lru_list ?t1 = lru_list t' @ rev ev" by auto
    moreover have "lru_list t = butlast (lru_list t) @ [?x]" using True by simp
    ultimately have l: "lru_list t = lru_list t' @ rev (?x # ev)" by simp
    have z: "space_max t < sum_list (map (sizefunc t) (lru_list t' @ rev (?x # ev)))"
      using True "1.prems"(2) unfolding l[symmetric] by (simp add: lruhash_accounted_def)
    have "\<forall>j < length (?x # ev). space_max t
          < sum_list (map (sizefunc t) (lru_list t' @ rev (drop j (?x # ev))))"
    proof (intro allI impI)
      fix j assume j: "j < length (?x # ev)"
      show "space_max t < sum_list (map (sizefunc t) (lru_list t' @ rev (drop j (?x # ev))))"
      proof (cases j)
        case 0
        with z show ?thesis by simp
      next
        case (Suc i)
        with j n show ?thesis by simp
      qed
    qed
    moreover have "dead' = dead @ (?x # ev)" using ev by simp
    ultimately show ?thesis by blast
  qed
qed

lemma lruhash_insert_needed:
  assumes "find (entry_matches h k) (lru_list t) = None"
    and "lruhash_accounted t"
    and "lruhash_insert t h k d = (t', ops, dead)"
  shows "\<forall>j < length dead. space_max t
          < sum_list (map (sizefunc t) (lru_list t' @ rev (drop j dead)))"
proof -
  let ?new = "\<lparr>e_hash = h, e_key = k, e_data = d\<rparr>"
  let ?t1 = "t\<lparr>lru_list := ?new # lru_list t, space_used := space_used t + sizefunc t ?new\<rparr>"
  from assms(1,3) have r: "reclaim_space ?t1 [] = (t', dead)"
    by (auto simp: lruhash_insert_def Let_def split: prod.splits)
  have acc: "lruhash_accounted ?t1" using assms(2) by (simp add: lruhash_accounted_def)
  from reclaim_space_needed[OF r acc] show ?thesis by simp
qed

lemma drop_push_le: "unat (drop_bit m (push_bit m (x :: 32 word))) \<le> unat x"
proof -
  have "unat (push_bit m x) = take_bit 32 (push_bit m (unat x))"
    by (simp add: unsigned_push_bit_eq)
  also have "\<dots> \<le> push_bit m (unat x)"
    by (simp add: take_bit_eq_mod)
  finally have "drop_bit m (unat (push_bit m x)) \<le> drop_bit m (push_bit m (unat x))"
    by (simp add: drop_bit_eq_div div_le_mono)
  also have "drop_bit m (push_bit m (unat x)) = unat x"
    by (simp add: drop_bit_push_bit)
  finally show ?thesis by (simp add: unat_drop_bit_eq)
qed

lemma unat_of_nat_le: "unat (of_nat k :: 32 word) \<le> k"
  by (simp add: unat_of_nat)

lemma slab_idx_le:
  "unat (drop_bit m ((h :: 32 word) AND push_bit m x)) \<le> unat x"
proof -
  have "drop_bit m (h AND push_bit m x) = drop_bit m h AND drop_bit m (push_bit m x)"
    by (rule drop_bit_and)
  also have "\<dots> \<le> drop_bit m (push_bit m x)" by (rule word_and_le1)
  finally have "unat (drop_bit m (h AND push_bit m x)) \<le> unat (drop_bit m (push_bit m x))"
    by (simp only: word_le_nat_alt)
  also have "\<dots> \<le> unat x" by (rule drop_push_le)
  finally show ?thesis .
qed

lemma slab_idx_create:
  assumes "0 < n"
  shows "slab_idx (slabhash_create n maxmem szf) h < n"
proof -
  have "slab_idx (slabhash_create n maxmem szf) h =
        unat (drop_bit (32 - slab_bits n) (h AND push_bit (32 - slab_bits n) (of_nat (n - 1))))"
    unfolding slab_idx_def slabhash_create_def by (simp del: slab_bits.simps)
  also have "\<dots> \<le> unat (of_nat (n - 1) :: 32 word)" by (rule slab_idx_le)
  also have "\<dots> \<le> n - 1" by (rule unat_of_nat_le)
  finally show ?thesis using assms by simp
qed

text \<open>
  Claim C4: \<open>slabhash_insert(table, hash, entry, data)\<close> works on the table that the
  hash selects and leaves every other table as it is. If an entry with an equal key is
  present there, the write lock of that entry is taken, its data is swapped for the new
  data (a lookup then finds the entry with the new data), the old data is freed, and
  only then is the lock released; nothing is evicted. Otherwise a new
  entry is added at the front and entries are evicted from the tail of the LRU of that
  table until the memory in use respects the budget of that table, and no further:
  before each eviction the entries still in the table, the one evicted next among them,
  take more memory than the budget, so none is evicted when the new entry fits. The budget of a table never changes, and in a table made by
  \<open>slabhash_create\<close> it is \<open>maxmem / numtables\<close>, with every hash selecting one of the
  \<open>numtables\<close> tables.
\<close>

theorem slabhash_insert_swap_or_evict:
  assumes i: "slab_idx sl h < length (sl_array sl)"
  shows
   "(\<forall>found. find (entry_matches h k) (lru_list (sl_array sl ! slab_idx sl h)) = Some found \<longrightarrow>
       (\<exists>t'. slabhash_insert sl h k d =
               (sl\<lparr>sl_array := (sl_array sl)[slab_idx sl h := t']\<rparr>, [Lock_rw_wrlock, Swap_data d, Free_data (e_data found), Lock_rw_unlock], []) \<and>
             lru_list t' = map (\<lambda>e. if e = found then found\<lparr>e_data := d\<rparr> else e)
                               (lru_list (sl_array sl ! slab_idx sl h)) \<and>
             fst (lruhash_lookup t' h k) = Some (found\<lparr>e_data := d\<rparr>) \<and>
             space_max t' = space_max (sl_array sl ! slab_idx sl h))) \<and>
    (find (entry_matches h k) (lru_list (sl_array sl ! slab_idx sl h)) = None \<longrightarrow>
       (\<exists>t' dead. slabhash_insert sl h k d =
               (sl\<lparr>sl_array := (sl_array sl)[slab_idx sl h := t']\<rparr>, [], dead) \<and>
             \<lparr>e_hash = h, e_key = k, e_data = d\<rparr> # lru_list (sl_array sl ! slab_idx sl h)
               = lru_list t' @ rev dead \<and>
             space_max t' = space_max (sl_array sl ! slab_idx sl h) \<and>
             (space_used (sl_array sl ! slab_idx sl h)
                + sizefunc (sl_array sl ! slab_idx sl h) \<lparr>e_hash = h, e_key = k, e_data = d\<rparr>
                \<le> space_max (sl_array sl ! slab_idx sl h) \<longrightarrow> dead = []) \<and>
             (lruhash_accounted (sl_array sl ! slab_idx sl h) \<longrightarrow>
                lruhash_accounted t' \<and> space_used t' \<le> space_max t' \<and>
                (\<forall>j < length dead.
                    space_max (sl_array sl ! slab_idx sl h)
                    < sum_list (map (sizefunc (sl_array sl ! slab_idx sl h))
                                    (lru_list t' @ rev (drop j dead))))))) \<and>
    (\<forall>j. j \<noteq> slab_idx sl h \<longrightarrow>
        sl_array (fst (slabhash_insert sl h k d)) ! j = sl_array sl ! j) \<and>
    (0 < numtables \<longrightarrow>
       slab_idx (slabhash_create numtables maxmem szf :: ('a, 'b) slabhash) h < numtables \<and>
       length (sl_array (slabhash_create numtables maxmem szf :: ('a, 'b) slabhash)) = numtables \<and>
       (\<forall>t \<in> set (sl_array (slabhash_create numtables maxmem szf :: ('a, 'b) slabhash)).
           space_max t = maxmem div numtables \<and> lruhash_accounted t))"
proof -
  let ?t = "sl_array sl ! slab_idx sl h"
  have ins: "slabhash_insert sl h k d =
     (case lruhash_insert ?t h k d of
        (t, freed, dead) \<Rightarrow> (sl\<lparr>sl_array := (sl_array sl)[slab_idx sl h := t]\<rparr>, freed, dead))"
    using i by (simp add: slabhash_insert_def Let_def)
  have a: "\<exists>t'. slabhash_insert sl h k d =
               (sl\<lparr>sl_array := (sl_array sl)[slab_idx sl h := t']\<rparr>, [Lock_rw_wrlock, Swap_data d, Free_data (e_data found), Lock_rw_unlock], []) \<and>
             lru_list t' = map (\<lambda>e. if e = found then found\<lparr>e_data := d\<rparr> else e) (lru_list ?t) \<and>
             fst (lruhash_lookup t' h k) = Some (found\<lparr>e_data := d\<rparr>) \<and>
             space_max t' = space_max ?t"
    if "find (entry_matches h k) (lru_list ?t) = Some found" for found
  proof -
    from lruhash_insert_present[OF that, of d] obtain t' where
      t: "lruhash_insert ?t h k d = (t', [Lock_rw_wrlock, Swap_data d, Free_data (e_data found), Lock_rw_unlock], [])"
      "lru_list t' = map (\<lambda>e. if e = found then found\<lparr>e_data := d\<rparr> else e) (lru_list ?t)"
      "fst (lruhash_lookup t' h k) = Some (found\<lparr>e_data := d\<rparr>)"
      "space_max t' = space_max ?t"
      by blast
    have "slabhash_insert sl h k d =
               (sl\<lparr>sl_array := (sl_array sl)[slab_idx sl h := t']\<rparr>, [Lock_rw_wrlock, Swap_data d, Free_data (e_data found), Lock_rw_unlock], [])"
      by (simp add: ins t(1))
    with t(2-4) show ?thesis by blast
  qed
  have b: "\<exists>t' dead. slabhash_insert sl h k d =
               (sl\<lparr>sl_array := (sl_array sl)[slab_idx sl h := t']\<rparr>, [], dead) \<and>
             \<lparr>e_hash = h, e_key = k, e_data = d\<rparr> # lru_list ?t = lru_list t' @ rev dead \<and>
             space_max t' = space_max ?t \<and>
             (space_used ?t + sizefunc ?t \<lparr>e_hash = h, e_key = k, e_data = d\<rparr> \<le> space_max ?t
                \<longrightarrow> dead = []) \<and>
             (lruhash_accounted ?t \<longrightarrow> lruhash_accounted t' \<and> space_used t' \<le> space_max t' \<and>
                (\<forall>j < length dead. space_max ?t
                    < sum_list (map (sizefunc ?t) (lru_list t' @ rev (drop j dead)))))"
    if "find (entry_matches h k) (lru_list ?t) = None"
  proof -
    from lruhash_insert_absent[OF that, of d] obtain t' dead where
      t: "lruhash_insert ?t h k d = (t', [], dead)"
      "\<lparr>e_hash = h, e_key = k, e_data = d\<rparr> # lru_list ?t = lru_list t' @ rev dead"
      "space_max t' = space_max ?t"
      "space_used ?t + sizefunc ?t \<lparr>e_hash = h, e_key = k, e_data = d\<rparr> \<le> space_max ?t
         \<longrightarrow> dead = []"
      "lruhash_accounted ?t \<longrightarrow> lruhash_accounted t' \<and> space_used t' \<le> space_max t'"
      by blast
    have "slabhash_insert sl h k d =
               (sl\<lparr>sl_array := (sl_array sl)[slab_idx sl h := t']\<rparr>, [], dead)"
      by (simp add: ins t(1))
    moreover have "\<forall>j < length dead. space_max ?t
          < sum_list (map (sizefunc ?t) (lru_list t' @ rev (drop j dead)))"
      if "lruhash_accounted ?t"
      by (rule lruhash_insert_needed[OF \<open>find (entry_matches h k) (lru_list ?t) = None\<close> that t(1)])
    ultimately show ?thesis using t(2-5) by blast
  qed
  have c: "sl_array (fst (slabhash_insert sl h k d)) ! j = sl_array sl ! j"
    if "j \<noteq> slab_idx sl h" for j
    using that ins by (cases "lruhash_insert ?t h k d") simp
  have e: "slab_idx (slabhash_create numtables maxmem szf :: ('a, 'b) slabhash) h < numtables \<and>
       length (sl_array (slabhash_create numtables maxmem szf :: ('a, 'b) slabhash)) = numtables \<and>
       (\<forall>t \<in> set (sl_array (slabhash_create numtables maxmem szf :: ('a, 'b) slabhash)).
           space_max t = maxmem div numtables \<and> lruhash_accounted t)"
    if "0 < numtables"
    using slab_idx_create[OF that] by (simp add: slabhash_create_def lruhash_accounted_def)
  from a b c e show ?thesis by blast
qed

theorem slabhash_insert_swap_or_evict_witness:
  "slab_idx ex_small_cache (ex_hash ex_key) < length (sl_array ex_small_cache) \<and>
   find (entry_matches (ex_hash ex_key) ex_key)
     (lru_list (sl_array ex_small_cache ! slab_idx ex_small_cache (ex_hash ex_key))) = Some ex_entry \<and>
   slabhash_insert ex_small_cache (ex_hash ex_key) ex_key ex_cname_reply =
     (ex_small_cache\<lparr>sl_array := [\<lparr>lru_list = [ex_entry\<lparr>e_data := ex_cname_reply\<rparr>],
         space_used = 14, space_max = 20, sizefunc = ex_sizefunc\<rparr>]\<rparr>, [Lock_rw_wrlock, Swap_data ex_cname_reply, Free_data ex_reply, Lock_rw_unlock], []) \<and>
   find (entry_matches (ex_hash ex_cname_key) ex_cname_key)
     (lru_list (sl_array ex_small_cache ! slab_idx ex_small_cache (ex_hash ex_cname_key))) = None \<and>
   lruhash_accounted (sl_array ex_small_cache ! slab_idx ex_small_cache (ex_hash ex_cname_key)) \<and>
   slabhash_insert ex_small_cache (ex_hash ex_cname_key) ex_cname_key ex_cname_reply =
     (ex_small_cache\<lparr>sl_array := [\<lparr>lru_list = [ex_cname_entry],
         space_used = 14, space_max = 20, sizefunc = ex_sizefunc\<rparr>]\<rparr>, [], [ex_entry]) \<and>
   space_used (sl_array (msg_cache ex_env) ! slab_idx (msg_cache ex_env) (ex_hash ex_cname_key))
     + ex_sizefunc ex_cname_entry
     \<le> space_max (sl_array (msg_cache ex_env) ! slab_idx (msg_cache ex_env) (ex_hash ex_cname_key)) \<and>
   slabhash_insert (msg_cache ex_env) (ex_hash ex_cname_key) ex_cname_key ex_cname_reply =
     ((msg_cache ex_env)\<lparr>sl_array := [\<lparr>lru_list = [ex_cname_entry, ex_entry],
         space_used = 27, space_max = 64, sizefunc = ex_sizefunc\<rparr>]\<rparr>, [], []) \<and>
   (0::nat) < 4 \<and>
   slab_idx (slabhash_create 4 1000 ex_sizefunc) (ex_hash ex_cname_key) < 4 \<and>
   list_all (\<lambda>t. space_max t = 250) (sl_array (slabhash_create 4 1000 ex_sizefunc)) \<and>
   find (entry_matches (ex_hash ex_cname_key) ex_cname_key)
     (lru_list (sl_array ex_two_cache ! slab_idx ex_two_cache (ex_hash ex_cname_key))) = None \<and>
   lruhash_accounted (sl_array ex_two_cache ! slab_idx ex_two_cache (ex_hash ex_cname_key)) \<and>
   slabhash_insert ex_two_cache (ex_hash ex_cname_key) ex_cname_key ex_cname_reply =
     (ex_two_cache\<lparr>sl_array := [\<lparr>lru_list = [ex_cname_entry, ex_entry],
         space_used = 27, space_max = 30, sizefunc = ex_sizefunc\<rparr>]\<rparr>, [], [ex_com_entry]) \<and>
   (30::nat) < sum_list (map ex_sizefunc [ex_cname_entry, ex_entry, ex_com_entry])"
proof -
  note defs = slab_idx_def ex_small_cache_def ex_env_def ex_entry_def ex_reply_def
    entry_matches_def ex_sizefunc_def ex_key_def ex_qname_def ex_cname_reply_def ex_cname_key_def
    ex_cname_entry_def ex_hash_def LDNS_RR_TYPE_A_def LDNS_RR_TYPE_CNAME_def
    ex_two_cache_def LDNS_RR_TYPE_NS_def ex_com_entry_def ex_com_key_def
  have i1: "slab_idx ex_small_cache (ex_hash ex_key) < length (sl_array ex_small_cache)"
    by (simp add: defs)
  have i2: "slab_idx ex_small_cache (ex_hash ex_cname_key) < length (sl_array ex_small_cache)"
    by (simp add: defs)
  have f1: "find (entry_matches (ex_hash ex_key) ex_key)
     (lru_list (sl_array ex_small_cache ! slab_idx ex_small_cache (ex_hash ex_key))) = Some ex_entry"
    by (simp add: defs)
  have e1: "slabhash_insert ex_small_cache (ex_hash ex_key) ex_key ex_cname_reply =
     (ex_small_cache\<lparr>sl_array := [\<lparr>lru_list = [ex_entry\<lparr>e_data := ex_cname_reply\<rparr>],
         space_used = 14, space_max = 20, sizefunc = ex_sizefunc\<rparr>]\<rparr>, [Lock_rw_wrlock, Swap_data ex_cname_reply, Free_data ex_reply, Lock_rw_unlock], [])"
    by (simp add: slabhash_insert_def lruhash_insert_def Let_def defs)
  have f2: "find (entry_matches (ex_hash ex_cname_key) ex_cname_key)
     (lru_list (sl_array ex_small_cache ! slab_idx ex_small_cache (ex_hash ex_cname_key))) = None"
    by (simp add: defs)
  have a2: "lruhash_accounted (sl_array ex_small_cache ! slab_idx ex_small_cache (ex_hash ex_cname_key))"
    by (simp add: lruhash_accounted_def defs)
  have e2: "slabhash_insert ex_small_cache (ex_hash ex_cname_key) ex_cname_key ex_cname_reply =
     (ex_small_cache\<lparr>sl_array := [\<lparr>lru_list = [ex_cname_entry],
         space_used = 14, space_max = 20, sizefunc = ex_sizefunc\<rparr>]\<rparr>, [], [ex_entry])"
    by (simp add: slabhash_insert_def lruhash_insert_def reclaim_space.simps Let_def defs)
  have s3: "space_used (sl_array (msg_cache ex_env) ! slab_idx (msg_cache ex_env) (ex_hash ex_cname_key))
     + ex_sizefunc ex_cname_entry
     \<le> space_max (sl_array (msg_cache ex_env) ! slab_idx (msg_cache ex_env) (ex_hash ex_cname_key))"
    by (simp add: defs)
  have e3: "slabhash_insert (msg_cache ex_env) (ex_hash ex_cname_key) ex_cname_key ex_cname_reply =
     ((msg_cache ex_env)\<lparr>sl_array := [\<lparr>lru_list = [ex_cname_entry, ex_entry],
         space_used = 27, space_max = 64, sizefunc = ex_sizefunc\<rparr>]\<rparr>, [], [])"
    by (simp add: slabhash_insert_def lruhash_insert_def reclaim_space.simps Let_def defs)
  have pos: "(0::nat) < 4" by simp
  from slabhash_insert_swap_or_evict [OF i2, of ex_cname_key ex_cname_reply 4 1000 ex_sizefunc] pos
  have "slab_idx (slabhash_create 4 1000 ex_sizefunc :: (query_info, addr reply_info) slabhash)
          (ex_hash ex_cname_key) < 4 \<and>
        (\<forall>t \<in> set (sl_array (slabhash_create 4 1000 ex_sizefunc
              :: (query_info, addr reply_info) slabhash)). space_max t = 1000 div 4)"
    by blast
  then have c: "slab_idx (slabhash_create 4 1000 ex_sizefunc :: (query_info, addr reply_info) slabhash)
          (ex_hash ex_cname_key) < 4"
    and m: "list_all (\<lambda>t. space_max t = 250) (sl_array (slabhash_create 4 1000 ex_sizefunc
              :: (query_info, addr reply_info) slabhash))"
    by (simp_all add: list_all_iff)
  have i4: "slab_idx ex_two_cache (ex_hash ex_cname_key) < length (sl_array ex_two_cache)"
    by (simp add: defs)
  have f4: "find (entry_matches (ex_hash ex_cname_key) ex_cname_key)
     (lru_list (sl_array ex_two_cache ! slab_idx ex_two_cache (ex_hash ex_cname_key))) = None"
    by (simp add: defs)
  have a4: "lruhash_accounted (sl_array ex_two_cache ! slab_idx ex_two_cache (ex_hash ex_cname_key))"
    by (simp add: lruhash_accounted_def defs)
  have e4: "slabhash_insert ex_two_cache (ex_hash ex_cname_key) ex_cname_key ex_cname_reply =
     (ex_two_cache\<lparr>sl_array := [\<lparr>lru_list = [ex_cname_entry, ex_entry],
         space_used = 27, space_max = 30, sizefunc = ex_sizefunc\<rparr>]\<rparr>, [], [ex_com_entry])"
    by (simp add: slabhash_insert_def lruhash_insert_def reclaim_space.simps Let_def defs)
  have ix: "slab_idx ex_two_cache (ex_hash ex_cname_key) = 0" by (simp add: defs)
  from slabhash_insert_swap_or_evict [OF i4, of ex_cname_key ex_cname_reply 4 1000 ex_sizefunc] f4 a4
  obtain t' dead where
    eq: "slabhash_insert ex_two_cache (ex_hash ex_cname_key) ex_cname_key ex_cname_reply =
         (ex_two_cache\<lparr>sl_array := (sl_array ex_two_cache)
             [slab_idx ex_two_cache (ex_hash ex_cname_key) := t']\<rparr>, [], dead)"
    and n: "\<forall>j < length dead.
       space_max (sl_array ex_two_cache ! slab_idx ex_two_cache (ex_hash ex_cname_key))
       < sum_list (map (sizefunc (sl_array ex_two_cache ! slab_idx ex_two_cache (ex_hash ex_cname_key)))
                       (lru_list t' @ rev (drop j dead)))"
    by blast
  from eq e4 have dd: "dead = [ex_com_entry]" by simp
  from eq e4 have "sl_array (ex_two_cache\<lparr>sl_array := (sl_array ex_two_cache)
             [slab_idx ex_two_cache (ex_hash ex_cname_key) := t']\<rparr>) =
       sl_array (ex_two_cache\<lparr>sl_array := [\<lparr>lru_list = [ex_cname_entry, ex_entry],
         space_used = 27, space_max = 30, sizefunc = ex_sizefunc\<rparr>]\<rparr>)" by simp
  then have tt: "t' = \<lparr>lru_list = [ex_cname_entry, ex_entry],
         space_used = 27, space_max = 30, sizefunc = ex_sizefunc\<rparr>"
    unfolding ix by (simp add: ex_two_cache_def)
  from n dd have "space_max (sl_array ex_two_cache ! slab_idx ex_two_cache (ex_hash ex_cname_key))
       < sum_list (map (sizefunc (sl_array ex_two_cache ! slab_idx ex_two_cache (ex_hash ex_cname_key)))
                       (lru_list t' @ rev (drop 0 dead)))" by simp
  then have m4: "(30::nat) < sum_list (map ex_sizefunc [ex_cname_entry, ex_entry, ex_com_entry])"
    unfolding ix dd tt by (simp add: ex_two_cache_def)
  show ?thesis
    by (intro conjI) (fact i1, fact f1, fact e1, fact f2, fact a2, fact e2, fact s3, fact e3,
        fact pos, fact c, fact m, fact f4, fact a4, fact e4, fact m4)
qed

subsection \<open>The budgets of a query\<close>

lemma iter_step_counts:
  assumes "query_restart_count s \<le> MAX_RESTART_COUNT" "referral_count s \<le> MAX_REFERRAL_COUNT"
  shows "query_restart_count (iter_step ev s) \<le> MAX_RESTART_COUNT \<and>
         referral_count (iter_step ev s) \<le> MAX_REFERRAL_COUNT"
  using assms
  by (auto simp: iter_step.simps iter_finish_def split: iter_state.splits iter_event.splits
      response_type.splits)

lemma iter_run_counts:
  "query_restart_count s \<le> MAX_RESTART_COUNT \<Longrightarrow> referral_count s \<le> MAX_REFERRAL_COUNT \<Longrightarrow>
   query_restart_count (iter_run evs s) \<le> MAX_RESTART_COUNT \<and>
   referral_count (iter_run evs s) \<le> MAX_REFERRAL_COUNT"
proof (induction evs arbitrary: s)
  case Nil
  then show ?case by simp
next
  case (Cons ev evs)
  from iter_step_counts[OF Cons.prems, of ev] Cons.IH[of "iter_step ev s"]
  show ?case by simp
qed

lemma iter_finished_stays: "state s = FINISHED_STATE \<Longrightarrow> iter_run evs s = s"
  by (induction evs) (simp_all add: iter_step.simps)

lemma sum_list_dec:
  "i < length xs \<Longrightarrow> 0 < xs ! i \<Longrightarrow> Suc (sum_list (xs[i := xs ! i - 1])) = sum_list (xs :: nat list)"
proof (induction xs arbitrary: i)
  case Nil
  then show ?case by simp
next
  case (Cons x xs)
  then show ?case by (cases i) auto
qed

lemma list_all_dec:
  "list_all (\<lambda>r. r \<le> m) xs \<Longrightarrow> list_all (\<lambda>r. r \<le> (m::nat)) (xs[i := xs ! i - 1])"
proof -
  assume a: "list_all (\<lambda>r. r \<le> m) xs"
  have "xs[i := xs ! i - 1] ! n \<le> m" if "n < length xs" for n
  proof (cases "n = i")
    case True
    with that a have "xs ! i \<le> m" by (simp add: list_all_length)
    with True that show ?thesis by simp
  next
    case False
    with that a show ?thesis by (simp add: list_all_length)
  qed
  then show ?thesis by (simp add: list_all_length)
qed

lemma sum_list_le_retry:
  "list_all (\<lambda>r. r \<le> m) xs \<Longrightarrow> sum_list xs \<le> (m::nat) * length xs"
  by (induction xs) auto

lemma fresh_dp_facts:
  "length (fresh_dp n) = n" "sum_list (fresh_dp n) = OUTBOUND_MSG_RETRY * n"
  "list_all (\<lambda>r. r \<le> OUTBOUND_MSG_RETRY) (fresh_dp n)"
  by (simp_all add: fresh_dp_def sum_list_replicate list_all_length)

lemma enter_querytargets:
  assumes "list_all (\<lambda>r. r \<le> OUTBOUND_MSG_RETRY) xs" "length xs \<le> D"
    "sent \<le> OUTBOUND_MSG_RETRY * D * k"
  shows "sent + sum_list xs + OUTBOUND_MSG_RETRY * (D - length xs)
         \<le> OUTBOUND_MSG_RETRY * D * (k + 1)"
proof -
  have "sum_list xs + OUTBOUND_MSG_RETRY * (D - length xs)
        \<le> OUTBOUND_MSG_RETRY * length xs + OUTBOUND_MSG_RETRY * (D - length xs)"
    using sum_list_le_retry[OF assms(1)] by simp
  also have "\<dots> = OUTBOUND_MSG_RETRY * D"
    using assms(2) by (simp add: distrib_left[symmetric])
  finally show ?thesis using assms(3) by (simp add: algebra_simps)
qed

lemma work_bounded_step:
  assumes inv: "work_bounded D s" and len: "length (dp_retries (iter_step ev s)) \<le> D"
  shows "work_bounded D (iter_step ev s)"
proof (cases "state s")
  case INIT_REQUEST_STATE
  with inv len show ?thesis
    by (cases ev) (auto simp: iter_step.simps work_bounded_def iter_finish_def fresh_dp_facts)
next
  case INIT_REQUEST_2_STATE
  with inv len show ?thesis
    by (cases ev) (auto simp: iter_step.simps work_bounded_def iter_finish_def fresh_dp_facts)
next
  case INIT_REQUEST_3_STATE
  note st = this
  show ?thesis
  proof (cases ev)
    case Pass
    with st inv len have l: "length (dp_retries s) \<le> D" by (simp add: iter_step.simps)
    from inv st have "outbound_sent s \<le> OUTBOUND_MSG_RETRY * D * (query_restart_count s + referral_count s)"
      and "list_all (\<lambda>r. r \<le> OUTBOUND_MSG_RETRY) (dp_retries s)"
      by (simp_all add: work_bounded_def)
    from enter_querytargets[OF this(2) l this(1)] inv st Pass show ?thesis
      by (simp add: iter_step.simps work_bounded_def)
  next
    case (Override n)
    with st len have l: "length (fresh_dp n) \<le> D" by (simp add: iter_step.simps)
    from inv st have "outbound_sent s \<le> OUTBOUND_MSG_RETRY * D * (query_restart_count s + referral_count s)"
      by (simp add: work_bounded_def)
    from enter_querytargets[OF fresh_dp_facts(3) l this] inv st Override show ?thesis
      by (simp add: iter_step.simps work_bounded_def fresh_dp_facts)
  qed (use st inv in \<open>auto simp: iter_step.simps\<close>)
next
  case QUERYTARGETS_STATE
  note st = this
  show ?thesis
  proof (cases ev)
    case Target_resolved
    with st len have l: "Suc (length (dp_retries s)) \<le> D" by (simp add: iter_step.simps)
    then have "OUTBOUND_MSG_RETRY * (D - length (dp_retries s)) =
               OUTBOUND_MSG_RETRY + OUTBOUND_MSG_RETRY * (D - Suc (length (dp_retries s)))"
      by (metis Suc_diff_Suc Suc_le_lessD mult_Suc_right)
    with inv st Target_resolved show ?thesis
      by (simp add: iter_step.simps work_bounded_def)
  next
    case (Select i)
    show ?thesis
    proof (cases "i < length (dp_retries s) \<and> 0 < dp_retries s ! i")
      case True
      with sum_list_dec[of i "dp_retries s"] list_all_dec[of OUTBOUND_MSG_RETRY "dp_retries s" i]
        inv st Select show ?thesis
        by (auto simp: iter_step.simps work_bounded_def)
    next
      case False
      with inv st Select show ?thesis by (auto simp: iter_step.simps)
    qed
  next
    case Exhausted
    with inv st show ?thesis
      by (auto simp: iter_step.simps work_bounded_def iter_finish_def)
  qed (use st inv in \<open>auto simp: iter_step.simps\<close>)
next
  case QUERY_RESP_STATE
  note st = this
  show ?thesis
  proof (cases ev)
    case (Reply r)
    show ?thesis
    proof (cases r)
      case (RESPONSE_REFERRAL n)
      show ?thesis
      proof (cases "Suc (referral_count s) > MAX_REFERRAL_COUNT")
        case True
        with inv st Reply RESPONSE_REFERRAL show ?thesis
          by (auto simp: iter_step.simps work_bounded_def iter_finish_def)
      next
        case False
        with st len Reply RESPONSE_REFERRAL have l: "length (fresh_dp n) \<le> D"
          by (simp add: iter_step.simps)
        from inv st have "outbound_sent s
            \<le> OUTBOUND_MSG_RETRY * D * (query_restart_count s + Suc (referral_count s))"
          by (simp add: work_bounded_def)
        from enter_querytargets[OF fresh_dp_facts(3) l this] inv st Reply RESPONSE_REFERRAL False
        show ?thesis
          by (simp add: iter_step.simps work_bounded_def fresh_dp_facts)
      qed
    qed (use inv st Reply in \<open>auto simp: iter_step.simps work_bounded_def iter_finish_def\<close>)
  qed (use st inv in \<open>auto simp: iter_step.simps work_bounded_def\<close>)
next
  case PRIME_RESP_STATE
  with inv show ?thesis
    by (cases ev) (auto simp: iter_step.simps work_bounded_def iter_finish_def)
next
  case FINISHED_STATE
  with inv show ?thesis by (simp add: iter_step.simps)
qed

lemma targets_bounded_here: "targets_bounded D evs s \<Longrightarrow> length (dp_retries s) \<le> D"
  by (cases evs) simp_all

lemma work_bounded_run:
  "work_bounded D s \<Longrightarrow> targets_bounded D evs s \<Longrightarrow> work_bounded D (iter_run evs s)"
proof (induction evs arbitrary: s)
  case Nil
  then show ?case by simp
next
  case (Cons ev evs)
  from Cons.prems(2) have tb: "targets_bounded D evs (iter_step ev s)" by simp
  from work_bounded_step[OF Cons.prems(1) targets_bounded_here[OF tb]] Cons.IH[OF _ tb]
  show ?case by simp
qed

lemma work_bounded_new: "work_bounded D iter_new_query"
  by (simp add: work_bounded_def iter_new_query_def)

lemma work_bounded_total:
  assumes "work_bounded D s"
  shows "outbound_sent s \<le> MAX_RESTART_COUNT * MAX_REFERRAL_COUNT * D * OUTBOUND_MSG_RETRY"
proof -
  from assms have r: "query_restart_count s \<le> 8" and f: "referral_count s \<le> 30"
    by (simp_all add: work_bounded_def MAX_RESTART_COUNT_def MAX_REFERRAL_COUNT_def)
  from assms have "outbound_sent s \<le> 4 * D * (query_restart_count s + referral_count s + 1)"
    by (auto simp: work_bounded_def OUTBOUND_MSG_RETRY_def split: if_splits)
  also have "\<dots> \<le> 4 * D * 39" using r f by (intro mult_le_mono2) simp
  also have "\<dots> \<le> 8 * 30 * D * 4" by simp
  finally show ?thesis
    by (simp add: MAX_RESTART_COUNT_def MAX_REFERRAL_COUNT_def OUTBOUND_MSG_RETRY_def)
qed

text \<open>
  Claim C6: for every query, whatever events arrive, the number of outbound queries
  emitted over its whole life is at most \<open>MAX_RESTART_COUNT * MAX_REFERRAL_COUNT * D *
  OUTBOUND_MSG_RETRY\<close>, that is \<open>8 * 30 * D * 4\<close>, when no delegation point of the query
  has more than \<open>D\<close> target addresses.
\<close>

theorem outbound_queries_bounded:
  assumes "targets_bounded D evs iter_new_query"
  shows "outbound_sent (iter_run evs iter_new_query)
           \<le> MAX_RESTART_COUNT * MAX_REFERRAL_COUNT * D * OUTBOUND_MSG_RETRY \<and>
         MAX_RESTART_COUNT * MAX_REFERRAL_COUNT * D * OUTBOUND_MSG_RETRY = 8 * 30 * D * 4"
  using work_bounded_total[OF work_bounded_run[OF work_bounded_new assms]]
  by (simp add: MAX_RESTART_COUNT_def MAX_REFERRAL_COUNT_def OUTBOUND_MSG_RETRY_def)

theorem outbound_queries_bounded_witness:
  "targets_bounded 1 ex_cname_chain iter_new_query \<and>
   outbound_sent (iter_run ex_cname_chain iter_new_query) = 9 \<and>
   outbound_sent (iter_run ex_cname_chain iter_new_query)
     \<le> MAX_RESTART_COUNT * MAX_REFERRAL_COUNT * 1 * OUTBOUND_MSG_RETRY"
proof -
  have tb: "targets_bounded 1 ex_cname_chain iter_new_query"
    by code_simp
  have n: "outbound_sent (iter_run ex_cname_chain iter_new_query) = 9"
    by code_simp
  from outbound_queries_bounded [OF tb] tb n show ?thesis by simp
qed

text \<open>
  Claim C2: for every query, whatever events arrive, the restart count never exceeds 8
  and the referral count never exceeds 30. A query that has used up its restarts and
  gets another CNAME, or has used up its referrals and gets another referral, is
  terminated with SERVFAIL at once: it is in the finished state with that answer code,
  and no later event changes it, so it emits nothing more.
\<close>

theorem restart_and_referral_limits:
  "query_restart_count (iter_run evs iter_new_query) \<le> 8 \<and>
   referral_count (iter_run evs iter_new_query) \<le> 30 \<and>
   (state (iter_run evs iter_new_query) = QUERY_RESP_STATE \<and>
    query_restart_count (iter_run evs iter_new_query) = 8 \<longrightarrow>
      iter_step (Reply RESPONSE_CNAME) (iter_run evs iter_new_query) =
        (iter_run evs iter_new_query)\<lparr>state := FINISHED_STATE,
                                         return_rcode := Some LDNS_RCODE_SERVFAIL\<rparr> \<and>
      iter_run evs' (iter_step (Reply RESPONSE_CNAME) (iter_run evs iter_new_query)) =
        iter_step (Reply RESPONSE_CNAME) (iter_run evs iter_new_query)) \<and>
   (state (iter_run evs iter_new_query) = QUERY_RESP_STATE \<and>
    referral_count (iter_run evs iter_new_query) = 30 \<longrightarrow>
      iter_step (Reply (RESPONSE_REFERRAL n)) (iter_run evs iter_new_query) =
        (iter_run evs iter_new_query)\<lparr>state := FINISHED_STATE,
                                         return_rcode := Some LDNS_RCODE_SERVFAIL\<rparr> \<and>
      iter_run evs' (iter_step (Reply (RESPONSE_REFERRAL n)) (iter_run evs iter_new_query)) =
        iter_step (Reply (RESPONSE_REFERRAL n)) (iter_run evs iter_new_query))"
proof -
  let ?s = "iter_run evs iter_new_query"
  have c: "query_restart_count ?s \<le> 8 \<and> referral_count ?s \<le> 30"
    using iter_run_counts[of iter_new_query evs]
    by (simp add: iter_new_query_def MAX_RESTART_COUNT_def MAX_REFERRAL_COUNT_def)
  have a: "iter_step (Reply RESPONSE_CNAME) ?s =
        ?s\<lparr>state := FINISHED_STATE, return_rcode := Some LDNS_RCODE_SERVFAIL\<rparr>"
    if "state ?s = QUERY_RESP_STATE" "query_restart_count ?s = 8"
    using that by (simp add: iter_step.simps iter_finish_def MAX_RESTART_COUNT_def)
  have b: "iter_step (Reply (RESPONSE_REFERRAL n)) ?s =
        ?s\<lparr>state := FINISHED_STATE, return_rcode := Some LDNS_RCODE_SERVFAIL\<rparr>"
    if "state ?s = QUERY_RESP_STATE" "referral_count ?s = 30"
    using that by (simp add: iter_step.simps iter_finish_def MAX_REFERRAL_COUNT_def)
  have stay: "iter_run evs' (s\<lparr>state := FINISHED_STATE, return_rcode := rc\<rparr>) =
              s\<lparr>state := FINISHED_STATE, return_rcode := rc\<rparr>" for s rc
    by (rule iter_finished_stays) simp
  from c a b stay show ?thesis by simp
qed

theorem restart_and_referral_limits_witness:
  "state (iter_run (butlast ex_cname_chain) iter_new_query) = QUERY_RESP_STATE \<and>
   query_restart_count (iter_run (butlast ex_cname_chain) iter_new_query) = 8 \<and>
   iter_run ex_cname_chain iter_new_query =
     \<lparr>state = FINISHED_STATE, query_restart_count = 8, referral_count = 0, dp_retries = [3],
      return_rcode = Some LDNS_RCODE_SERVFAIL, outbound_sent = 9\<rparr> \<and>
   state (iter_run (butlast ex_referral_chain) iter_new_query) = QUERY_RESP_STATE \<and>
   referral_count (iter_run (butlast ex_referral_chain) iter_new_query) = 30 \<and>
   iter_run ex_referral_chain iter_new_query =
     \<lparr>state = FINISHED_STATE, query_restart_count = 0, referral_count = 30, dp_retries = [3],
      return_rcode = Some LDNS_RCODE_SERVFAIL, outbound_sent = 31\<rparr>"
proof -
  have s: "state (iter_run (butlast ex_cname_chain) iter_new_query) = QUERY_RESP_STATE"
    by code_simp
  have r: "query_restart_count (iter_run (butlast ex_cname_chain) iter_new_query) = 8"
    by code_simp
  have e: "iter_run ex_cname_chain iter_new_query =
     \<lparr>state = FINISHED_STATE, query_restart_count = 8, referral_count = 0, dp_retries = [3],
      return_rcode = Some LDNS_RCODE_SERVFAIL, outbound_sent = 9\<rparr>"
    by code_simp
  have s2: "state (iter_run (butlast ex_referral_chain) iter_new_query) = QUERY_RESP_STATE"
    by code_simp
  have r2: "referral_count (iter_run (butlast ex_referral_chain) iter_new_query) = 30"
    by code_simp
  have e2: "iter_run ex_referral_chain iter_new_query =
     \<lparr>state = FINISHED_STATE, query_restart_count = 0, referral_count = 30, dp_retries = [3],
      return_rcode = Some LDNS_RCODE_SERVFAIL, outbound_sent = 31\<rparr>"
    by code_simp
  from restart_and_referral_limits [of "butlast ex_cname_chain" "[]" 0]
    restart_and_referral_limits [of "butlast ex_referral_chain" "[]" 1] s r e s2 r2 e2
  show ?thesis by simp
qed

subsection \<open>The table invariant\<close>

text \<open>
  A table made by \<open>slabhash_create\<close> has no two entries with the same hash and key,
  and insert and lookup, and with them \<open>dns_cache_store_msg\<close> and
  \<open>dns_cache_lookup\<close>, keep it so.
\<close>

lemma slabhash_create_distinct: "slabhash_distinct (slabhash_create n maxmem szf)"
  by (simp add: slabhash_distinct_def slabhash_create_def lruhash_distinct_def list_all_iff)

lemma map_swap_keys:
  "map (\<lambda>e. (e_hash e, e_key e)) (map (\<lambda>e. if e = found then found\<lparr>e_data := d\<rparr> else e) l) =
   map (\<lambda>e. (e_hash e, e_key e)) l"
  by (induction l) auto

lemma lruhash_insert_distinct:
  assumes "lruhash_distinct t"
  shows "lruhash_distinct (fst (lruhash_insert t h k d))"
proof (cases "find (entry_matches h k) (lru_list t)")
  case (Some found)
  from lruhash_insert_present[OF Some, of d] obtain t' where
    r: "fst (lruhash_insert t h k d) = t'"
    and l: "lru_list t' = map (\<lambda>e. if e = found then found\<lparr>e_data := d\<rparr> else e) (lru_list t)"
    by auto
  have "map (\<lambda>e. (e_hash e, e_key e)) (lru_list t') = map (\<lambda>e. (e_hash e, e_key e)) (lru_list t)"
    unfolding l by (rule map_swap_keys)
  with assms r show ?thesis by (simp add: lruhash_distinct_def)
next
  case None
  from lruhash_insert_absent[OF None, of d] obtain t' dead where
    r: "lruhash_insert t h k d = (t', [], dead)"
    and l: "\<lparr>e_hash = h, e_key = k, e_data = d\<rparr> # lru_list t = lru_list t' @ rev dead"
    by blast
  from None have "(h, k) \<notin> (\<lambda>e. (e_hash e, e_key e)) ` set (lru_list t)"
    by (auto simp: find_None_iff entry_matches_def)
  with assms have "distinct (map (\<lambda>e. (e_hash e, e_key e))
      (\<lparr>e_hash = h, e_key = k, e_data = d\<rparr> # lru_list t))"
    by (simp add: lruhash_distinct_def)
  then have "distinct (map (\<lambda>e. (e_hash e, e_key e)) (lru_list t'))"
    unfolding l by simp
  with r show ?thesis by (simp add: lruhash_distinct_def)
qed

lemma slabhash_insert_distinct:
  assumes "slabhash_distinct sl"
  shows "slabhash_distinct (fst (slabhash_insert sl h k d))"
proof (cases "slab_idx sl h < length (sl_array sl)")
  case False
  with assms show ?thesis by (simp add: slabhash_insert_def Let_def)
next
  case True
  from assms True have "lruhash_distinct (sl_array sl ! slab_idx sl h)"
    by (simp add: slabhash_distinct_def list_all_length)
  from lruhash_insert_distinct[OF this, of h k d] assms True show ?thesis
    by (auto simp: slabhash_insert_def Let_def slabhash_distinct_def list_all_length
        nth_list_update split: prod.splits)
qed

lemma distinct_map_touch:
  assumes "distinct (map f l)" "e \<in> set l"
  shows "distinct (map f (e # remove1 e l))"
proof -
  from assms have "distinct l" by (simp add: distinct_map)
  with assms(2) have s: "set (remove1 e l) = set l - {e}" by simp
  from assms(1) have i: "inj_on f (set l)" by (simp add: distinct_map)
  have "f e \<notin> f ` set (remove1 e l)"
  proof
    assume "f e \<in> f ` set (remove1 e l)"
    then obtain x where "f e = f x" "x \<in> set (remove1 e l)" by (rule imageE)
    with s have "x \<in> set l" "x \<noteq> e" "f x = f e" by simp_all
    with i assms(2) show False by (auto dest: inj_onD)
  qed
  moreover have "distinct (map f (remove1 e l))"
    using assms(1) \<open>distinct l\<close> i s by (auto simp: distinct_map intro: inj_on_subset)
  ultimately show ?thesis by simp
qed

lemma lruhash_lookup_distinct:
  assumes "lruhash_distinct t"
  shows "lruhash_distinct (snd (lruhash_lookup t h k))"
proof (cases "find (entry_matches h k) (lru_list t)")
  case None
  with assms show ?thesis by (simp add: lruhash_lookup_def)
next
  case (Some e)
  then have "e \<in> set (lru_list t)" by (simp add: find_Some_holds)
  from distinct_map_touch[OF _ this] assms Some show ?thesis
    by (simp add: lruhash_lookup_def lruhash_distinct_def)
qed

lemma slabhash_lookup_distinct:
  assumes "slabhash_distinct sl"
  shows "slabhash_distinct (snd (slabhash_lookup sl h k))"
proof (cases "slab_idx sl h < length (sl_array sl)")
  case False
  with assms show ?thesis by (simp add: slabhash_lookup_def Let_def)
next
  case True
  from assms True have "lruhash_distinct (sl_array sl ! slab_idx sl h)"
    by (simp add: slabhash_distinct_def list_all_length)
  from lruhash_lookup_distinct[OF this, of h k] assms True show ?thesis
    by (auto simp: slabhash_lookup_array slabhash_distinct_def list_all_length nth_list_update)
qed

lemma tomsg_msg_cache: "msg_cache (snd (snd (tomsg env e r region now))) = msg_cache env"
  by (simp add: tomsg_def Let_def split: prod.splits option.splits)

lemma lookup_attempt_distinct:
  assumes "slabhash_distinct (msg_cache env)"
  shows "slabhash_distinct (msg_cache (snd (snd (lookup_attempt qh env k region now))))"
proof -
  obtain e mc where l: "slabhash_lookup (msg_cache env) (qh k) k = (e, mc)"
    by (cases "slabhash_lookup (msg_cache env) (qh k) k")
  from slabhash_lookup_distinct[OF assms, of "qh k" k] l have "slabhash_distinct mc" by simp
  with l show ?thesis
    by (cases e) (simp_all add: lookup_attempt_def tomsg_msg_cache)
qed

lemma dns_cache_lookup_distinct:
  assumes "slabhash_distinct (msg_cache env)"
  shows "slabhash_distinct (msg_cache (snd (snd (dns_cache_lookup qh env qn qt qc region now))))"
proof -
  let ?k = "\<lparr>qname = qn, qtype = qt, qclass = qc\<rparr>"
  obtain m r1 env1 where a: "lookup_attempt qh env ?k region now = (m, r1, env1)"
    by (cases "lookup_attempt qh env ?k region now")
  from lookup_attempt_distinct[OF assms, of qh ?k region now] a
  have d1: "slabhash_distinct (msg_cache env1)" by simp
  show ?thesis
  proof (cases m)
    case (Some msg)
    with a d1 show ?thesis by (simp add: dns_cache_lookup_def)
  next
    case None
    let ?k2 = "?k\<lparr>qtype := LDNS_RR_TYPE_CNAME\<rparr>"
    obtain m2 r2 env2 where b: "lookup_attempt qh env1 ?k2 r1 now = (m2, r2, env2)"
      by (cases "lookup_attempt qh env1 ?k2 r1 now")
    from lookup_attempt_distinct[OF d1, of qh ?k2 r1 now] b
    have "slabhash_distinct (msg_cache env2)" by simp
    with None a b show ?thesis by (cases m2) (simp_all add: dns_cache_lookup_def)
  qed
qed

lemma dns_cache_store_msg_distinct:
  assumes "slabhash_distinct (msg_cache env)"
  shows "slabhash_distinct (msg_cache (fst (dns_cache_store_msg malloc_ok env qinfo hash rep now)))"
proof -
  obtain env' rep' where r: "dns_cache_store_msg malloc_ok env qinfo hash rep now = (env', rep')"
    by (cases "dns_cache_store_msg malloc_ok env qinfo hash rep now")
  from store_msg_unfold[OF r] have
    "msg_cache env' = (if rep_ttl rep = 0 \<or> \<not> malloc_ok then msg_cache env
        else fst (slabhash_insert (msg_cache env) hash qinfo rep'))" by blast
  with r assms slabhash_insert_distinct[OF assms, of hash qinfo rep'] show ?thesis by simp
qed

end
